theory Spec2Isabelle
  imports Main "HOL-Library.AList"
begin

section \<open>Python strings and exceptions\<close>

text \<open>
  A Python \<open>str\<close> is a sequence of Unicode code points, and \<open>len\<close> counts code points.
  The model keeps a string as the list of its code points. \<open>ascii\<close> embeds an ASCII
  literal.
\<close>

type_synonym pystr = "nat list"

definition ascii :: "string \<Rightarrow> pystr" where
  "ascii s = map of_char s"

text \<open>
  Every \<open>raise\<close> of \<open>main.py\<close> raises \<open>ValueError\<close> with a message; the
  \<open>datetime\<close> library adds \<open>OverflowError\<close>.
\<close>

datatype exn = ValueError pystr | OverflowError pystr

text \<open>\<open>sep.join(xs)\<close>.\<close>

fun str_join :: "pystr \<Rightarrow> pystr list \<Rightarrow> pystr" where
  "str_join sep [] = []"
| "str_join sep [x] = x"
| "str_join sep (x # y # ys) = x @ sep @ str_join sep (y # ys)"

subsection \<open>Unicode digits\<close>

text \<open>
  \<open>str.isdigit\<close> is true of a non-empty string all of whose characters have the Unicode
  property Numeric\_Type=Decimal or Numeric\_Type=Digit. The decimal digits (category Nd, the
  characters that the regular expression \<open>\d\<close> matches and that \<open>int\<close> reads) come in
  runs of ten, zero first; \<open>decimal_zeros\<close> lists the zero of every run (Unicode 14.0, the
  database of CPython 3.11). \<open>digit_only_ranges\<close> lists the characters that are digits
  without being decimal (superscripts, subscripts, circled digits and the like).
\<close>

definition decimal_zeros :: "nat list" where
  "decimal_zeros =
    [48, 1632, 1776, 1984, 2406, 2534, 2662, 2790,
     2918, 3046, 3174, 3302, 3430, 3558, 3664, 3792,
     3872, 4160, 4240, 6112, 6160, 6470, 6608, 6784,
     6800, 6992, 7088, 7232, 7248, 42528, 43216, 43264,
     43472, 43504, 43600, 44016, 65296, 66720, 68912, 69734,
     69872, 69942, 70096, 70384, 70736, 70864, 71248, 71360,
     71472, 71904, 72016, 72784, 73040, 73120, 92768, 92864,
     93008, 120782, 120792, 120802, 120812, 120822, 123200, 123632,
     125264, 130032]"

definition digit_only_ranges :: "(nat \<times> nat) list" where
  "digit_only_ranges =
    [(178, 179), (185, 185), (4969, 4977), (6618, 6618),
     (8304, 8304), (8308, 8313), (8320, 8329), (9312, 9320),
     (9332, 9340), (9352, 9360), (9450, 9450), (9461, 9469),
     (9471, 9471), (10102, 10110), (10112, 10120), (10122, 10130),
     (68160, 68163), (69216, 69224), (69714, 69722), (127232, 127242)]"

text \<open>The value of a decimal digit, \<open>None\<close> for any other character.\<close>

definition decimal_value :: "nat \<Rightarrow> nat option" where
  "decimal_value c =
     (case List.find (\<lambda>z. z \<le> c \<and> c \<le> z + 9) decimal_zeros of
        None \<Rightarrow> None
      | Some z \<Rightarrow> Some (c - z))"

definition isdecimal_char :: "nat \<Rightarrow> bool" where
  "isdecimal_char c = (decimal_value c \<noteq> None)"

definition isdigit_char :: "nat \<Rightarrow> bool" where
  "isdigit_char c =
     (isdecimal_char c \<or> list_ex (\<lambda>(lo, hi). lo \<le> c \<and> c \<le> hi) digit_only_ranges)"

definition str_isdigit :: "pystr \<Rightarrow> bool" where
  "str_isdigit s = (s \<noteq> [] \<and> list_all isdigit_char s)"

section \<open>The datetime library\<close>

text \<open>
  The parts of CPython's \<open>datetime\<close> that \<open>main.py\<close> calls, after
  \<open>Lib/datetime.py\<close>: naive datetimes in the proleptic Gregorian calendar, with the
  years 1 to 9999. The error messages are those of the C implementation.
\<close>

text \<open>Decimal notation of an integer.\<close>

fun nat_digits :: "nat \<Rightarrow> pystr" where
  "nat_digits n = (if n < 10 then [48 + n] else nat_digits (n div 10) @ [48 + n mod 10])"

declare nat_digits.simps [simp del]

definition str_of_int :: "int \<Rightarrow> pystr" where
  "str_of_int i = (if i < 0 then 45 # nat_digits (nat (- i)) else nat_digits (nat i))"

subsection \<open>Ordinals\<close>

definition MINYEAR :: int where "MINYEAR = 1"
definition MAXYEAR :: int where "MAXYEAR = 9999"
definition MAXORDINAL :: int where "MAXORDINAL = 3652059"

definition DAYS_IN_MONTH :: "int list" where
  "DAYS_IN_MONTH = [-1, 31, 28, 31, 30, 31, 30, 31, 31, 30, 31, 30, 31]"

definition DAYS_BEFORE_MONTH :: "int list" where
  "DAYS_BEFORE_MONTH = [-1, 0, 31, 59, 90, 120, 151, 181, 212, 243, 273, 304, 334]"

definition is_leap :: "int \<Rightarrow> bool" where
  "is_leap y = (y mod 4 = 0 \<and> (y mod 100 \<noteq> 0 \<or> y mod 400 = 0))"

definition days_before_year :: "int \<Rightarrow> int" where
  "days_before_year yr = (let y = yr - 1 in y * 365 + y div 4 - y div 100 + y div 400)"

definition days_in_month :: "int \<Rightarrow> int \<Rightarrow> int" where
  "days_in_month y m = (if m = 2 \<and> is_leap y then 29 else DAYS_IN_MONTH ! nat m)"

definition days_before_month :: "int \<Rightarrow> int \<Rightarrow> int" where
  "days_before_month y m = DAYS_BEFORE_MONTH ! nat m + (if m > 2 \<and> is_leap y then 1 else 0)"

definition ymd2ord :: "int \<Rightarrow> int \<Rightarrow> int \<Rightarrow> int" where
  "ymd2ord y m d = days_before_year y + days_before_month y m + d"

definition DI400Y :: int where "DI400Y = days_before_year 401"
definition DI100Y :: int where "DI100Y = days_before_year 101"
definition DI4Y :: int where "DI4Y = days_before_year 5"

text \<open>
  \<open>_ord2ymd\<close>: the date of the day number \<open>n0\<close>, 1 January of year 1 being day 1.
  \<open>ord2ymd_month\<close> is its last part, which finds the month and the day from the offset
  \<open>n\<close> within the year; \<open>(n + 50) >> 5\<close> is the division by 32.
\<close>

definition ord2ymd_month :: "int \<Rightarrow> bool \<Rightarrow> int \<Rightarrow> int \<times> int \<times> int" where
  "ord2ymd_month yr leapyear n =
     (let mo = (n + 50) div 32;
          preceding = DAYS_BEFORE_MONTH ! nat mo + (if mo > 2 \<and> leapyear then 1 else 0)
      in if preceding > n
         then let mo = mo - 1;
                  preceding = preceding -
                    (DAYS_IN_MONTH ! nat mo + (if mo = 2 \<and> leapyear then 1 else 0))
              in (yr, mo, n - preceding + 1)
         else (yr, mo, n - preceding + 1))"

definition ord2ymd :: "int \<Rightarrow> int \<times> int \<times> int" where
  "ord2ymd n0 =
     (let n = n0 - 1;
          n400 = n div DI400Y; n = n mod DI400Y;
          yr = n400 * 400 + 1;
          n100 = n div DI100Y; n = n mod DI100Y;
          n4 = n div DI4Y; n = n mod DI4Y;
          n1 = n div 365; n = n mod 365;
          yr = yr + (n100 * 100 + n4 * 4 + n1)
      in if n1 = 4 \<or> n100 = 4 then (yr - 1, 12, 31)
         else ord2ymd_month yr (n1 = 3 \<and> (n4 \<noteq> 24 \<or> n100 = 3)) n)"

subsection \<open>datetime and timedelta\<close>

record datetime =
  year :: int
  month :: int
  day :: int
  hour :: int
  minute :: int
  second :: int
  microsecond :: int

record timedelta =
  days :: int
  seconds :: int
  microseconds :: int

text \<open>The values a datetime object can hold: what its constructor accepts.\<close>

definition valid_date :: "int \<Rightarrow> int \<Rightarrow> int \<Rightarrow> bool" where
  "valid_date y m d =
     (MINYEAR \<le> y \<and> y \<le> MAXYEAR \<and> 1 \<le> m \<and> m \<le> 12 \<and> 1 \<le> d \<and> d \<le> days_in_month y m)"

definition valid_datetime :: "datetime \<Rightarrow> bool" where
  "valid_datetime dt =
     (valid_date (year dt) (month dt) (day dt) \<and> 0 \<le> hour dt \<and> hour dt \<le> 23 \<and>
      0 \<le> minute dt \<and> minute dt \<le> 59 \<and> 0 \<le> second dt \<and> second dt \<le> 59 \<and>
      0 \<le> microsecond dt \<and> microsecond dt \<le> 999999)"

text \<open>The datetime of a date at 00:00:00, as \<open>strptime\<close> returns it for a date format.\<close>

definition midnight :: "int \<Rightarrow> int \<Rightarrow> int \<Rightarrow> datetime" where
  "midnight y m d =
     \<lparr>year = y, month = m, day = d, hour = 0, minute = 0, second = 0, microsecond = 0\<rparr>"

text \<open>The constructor checks the date fields, then the time fields.\<close>

definition datetime_new ::
  "int \<Rightarrow> int \<Rightarrow> int \<Rightarrow> int \<Rightarrow> int \<Rightarrow> int \<Rightarrow> int \<Rightarrow> exn + datetime" where
  "datetime_new y m d hh mm ss us =
     (if \<not> (MINYEAR \<le> y \<and> y \<le> MAXYEAR)
        then Inl (ValueError (ascii ''year '' @ str_of_int y @ ascii '' is out of range''))
      else if \<not> (1 \<le> m \<and> m \<le> 12)
        then Inl (ValueError (ascii ''month must be in 1..12''))
      else if \<not> (1 \<le> d \<and> d \<le> days_in_month y m)
        then Inl (ValueError (ascii ''day is out of range for month''))
      else if \<not> (0 \<le> hh \<and> hh \<le> 23)
        then Inl (ValueError (ascii ''hour must be in 0..23''))
      else if \<not> (0 \<le> mm \<and> mm \<le> 59)
        then Inl (ValueError (ascii ''minute must be in 0..59''))
      else if \<not> (0 \<le> ss \<and> ss \<le> 59)
        then Inl (ValueError (ascii ''second must be in 0..59''))
      else if \<not> (0 \<le> us \<and> us \<le> 999999)
        then Inl (ValueError (ascii ''microsecond must be in 0..999999''))
      else Inr \<lparr>year = y, month = m, day = d, hour = hh, minute = mm, second = ss,
                microsecond = us\<rparr>)"

text \<open>\<open>self.replace(year=y)\<close> builds a new datetime, so the fields are checked again.\<close>

definition replace_year :: "datetime \<Rightarrow> int \<Rightarrow> exn + datetime" where
  "replace_year self y =
     datetime_new y (month self) (day self) (hour self) (minute self) (second self)
       (microsecond self)"

text \<open>Naive datetimes compare as the tuples of their seven fields.\<close>

fun tuple_lt :: "int list \<Rightarrow> int list \<Rightarrow> bool" where
  "tuple_lt (x # xs) (y # ys) = (x < y \<or> (x = y \<and> tuple_lt xs ys))"
| "tuple_lt [] (y # ys) = True"
| "tuple_lt xs [] = False"

definition datetime_lt :: "datetime \<Rightarrow> datetime \<Rightarrow> bool" where
  "datetime_lt self other =
     tuple_lt [year self, month self, day self, hour self, minute self, second self,
               microsecond self]
              [year other, month other, day other, hour other, minute other, second other,
               microsecond other]"



definition is_midnight :: "datetime \<Rightarrow> bool" where
  "is_midnight self =
     (hour self = 0 \<and> minute self = 0 \<and> second self = 0 \<and> microsecond self = 0)"

definition toordinal :: "datetime \<Rightarrow> int" where
  "toordinal self = ymd2ord (year self) (month self) (day self)"

definition weekday :: "datetime \<Rightarrow> int" where
  "weekday self = (toordinal self + 6) mod 7"

text \<open>
  A \<open>timedelta\<close> is kept normalised: \<open>0 \<le> seconds < 86400\<close> and
  \<open>0 \<le> microseconds < 1000000\<close>, the carries going into \<open>days\<close>. The differences
  and sums of ordinals formed here stay far within the 999999999 days a \<open>timedelta\<close>
  can hold.
\<close>

definition timedelta_new :: "int \<Rightarrow> int \<Rightarrow> int \<Rightarrow> timedelta" where
  "timedelta_new d s us =
     (let s1 = s + us div 1000000
      in \<lparr>days = d + s1 div 86400, seconds = s1 mod 86400, microseconds = us mod 1000000\<rparr>)"

definition timedelta_add :: "timedelta \<Rightarrow> timedelta \<Rightarrow> timedelta" where
  "timedelta_add a b =
     timedelta_new (days a + days b) (seconds a + seconds b) (microseconds a + microseconds b)"

definition datetime_add :: "datetime \<Rightarrow> timedelta \<Rightarrow> exn + datetime" where
  "datetime_add self other =
     (let delta = timedelta_add
            (timedelta_new (toordinal self)
               (hour self * 3600 + minute self * 60 + second self) (microsecond self))
            other;
          hh = seconds delta div 3600; rem = seconds delta mod 3600;
          mm = rem div 60; ss = rem mod 60
      in if 0 < days delta \<and> days delta \<le> MAXORDINAL
         then (case ord2ymd (days delta) of
                 (y, m, d) \<Rightarrow>
                   Inr \<lparr>year = y, month = m, day = d, hour = hh, minute = mm, second = ss,
                        microsecond = microseconds delta\<rparr>)
         else Inl (OverflowError (ascii ''date value out of range'')))"

definition datetime_sub :: "datetime \<Rightarrow> datetime \<Rightarrow> timedelta" where
  "datetime_sub self other =
     (let days1 = toordinal self; days2 = toordinal other;
          secs1 = second self + minute self * 60 + hour self * 3600;
          secs2 = second other + minute other * 60 + hour other * 3600
      in timedelta_new (days1 - days2) (secs1 - secs2) (microsecond self - microsecond other))"

text \<open>
  \<open>strftime("%d.%m.%Y")\<close>: day and month on two digits, and the year as the C library
  prints it. With glibc, under CPython 3.11, that is the plain decimal number: a year below
  1000 is not zero-filled. From the year 1000 on every platform prints the same four digits.
\<close>

definition pad2 :: "int \<Rightarrow> pystr" where
  "pad2 n = [48 + nat n div 10 mod 10, 48 + nat n mod 10]"

definition strftime :: "datetime \<Rightarrow> pystr" where
  "strftime self = pad2 (day self) @ [46] @ pad2 (month self) @ [46] @ str_of_int (year self)"

subsection \<open>strptime with the format \<open>%d.%m.%Y\<close>\<close>

text \<open>
  \<open>_strptime\<close> compiles the format to the regular expression
  \<^verbatim>\<open>(?P<d>3[0-1]|[1-2]\d|0[1-9]|[1-9]| [1-9])\.(?P<m>1[0-2]|0[1-9]|[1-9])\.(?P<Y>\d\d\d\d)\<close>
  and matches it at the start of the text. A matcher returns every way of matching a prefix,
  in the order in which backtracking tries them, as pairs of the matched text and the rest.
\<close>

definition in_class :: "nat \<Rightarrow> nat \<Rightarrow> nat \<Rightarrow> bool" where
  "in_class lo hi c = (lo \<le> c \<and> c \<le> hi)"

fun re_one :: "(nat \<Rightarrow> bool) \<Rightarrow> pystr \<Rightarrow> (pystr \<times> pystr) list" where
  "re_one P (a # r) = (if P a then [([a], r)] else [])"
| "re_one P [] = []"

fun re_two :: "(nat \<Rightarrow> bool) \<Rightarrow> (nat \<Rightarrow> bool) \<Rightarrow> pystr \<Rightarrow> (pystr \<times> pystr) list" where
  "re_two P Q (a # b # r) = (if P a \<and> Q b then [([a, b], r)] else [])"
| "re_two P Q [a] = []"
| "re_two P Q [] = []"

definition re_d :: "pystr \<Rightarrow> (pystr \<times> pystr) list" where
  "re_d s =
     re_two (\<lambda>c. c = 51) (in_class 48 49) s @
     re_two (in_class 49 50) isdecimal_char s @
     re_two (\<lambda>c. c = 48) (in_class 49 57) s @
     re_one (in_class 49 57) s @
     re_two (\<lambda>c. c = 32) (in_class 49 57) s"

definition re_m :: "pystr \<Rightarrow> (pystr \<times> pystr) list" where
  "re_m s =
     re_two (\<lambda>c. c = 49) (in_class 48 50) s @
     re_two (\<lambda>c. c = 48) (in_class 49 57) s @
     re_one (in_class 49 57) s"

fun re_Y :: "pystr \<Rightarrow> (pystr \<times> pystr) list" where
  "re_Y (a # b # c # d # r) =
     (if isdecimal_char a \<and> isdecimal_char b \<and> isdecimal_char c \<and> isdecimal_char d
      then [([a, b, c, d], r)] else [])"
| "re_Y s = []"

fun re_dot :: "pystr \<Rightarrow> pystr list" where
  "re_dot (c # r) = (if c = 46 then [r] else [])"
| "re_dot [] = []"

text \<open>The groups \<open>d\<close>, \<open>m\<close>, \<open>Y\<close> of the first match, and the text left after it.\<close>

definition format_regex_match :: "pystr \<Rightarrow> ((pystr \<times> pystr \<times> pystr) \<times> pystr) option" where
  "format_regex_match s =
     (case concat (map (\<lambda>(d, r1). concat (map (\<lambda>r2. concat (map (\<lambda>(m, r3).
             concat (map (\<lambda>r4. map (\<lambda>(y, r5). ((d, m, y), r5)) (re_Y r4)) (re_dot r3)))
             (re_m r2))) (re_dot r1))) (re_d s)) of
        [] \<Rightarrow> None
      | found # others \<Rightarrow> Some found)"

text \<open>
  \<open>int\<close> on the text of a group: leading spaces are skipped and decimal digits of any
  script are read; \<open>None\<close> is the \<open>ValueError\<close> on any other text.
\<close>

definition py_int :: "pystr \<Rightarrow> int option" where
  "py_int s =
     (let t = dropWhile (\<lambda>c. c = 32) s
      in if t \<noteq> [] \<and> list_all isdecimal_char t
         then Some (foldl (\<lambda>acc c. 10 * acc + int (case decimal_value c of None \<Rightarrow> 0 | Some v \<Rightarrow> v)) 0 t)
         else None)"

text \<open>
  \<open>datetime.strptime(s, "%d.%m.%Y")\<close>. \<open>None\<close> stands for the \<open>ValueError\<close> it
  raises: no match, text left after the match, or fields that are not a date. Both callers
  catch it without reading its message.
\<close>

definition strptime :: "pystr \<Rightarrow> datetime option" where
  "strptime s =
     (case format_regex_match s of
        None \<Rightarrow> None
      | Some ((d, m, y), rest) \<Rightarrow>
          if rest \<noteq> [] then None
          else (case (py_int y, py_int m, py_int d) of
                  (Some yy, Some mm, Some dd) \<Rightarrow>
                    (case datetime_new yy mm dd 0 0 0 0 of
                       Inl e \<Rightarrow> None
                     | Inr dt \<Rightarrow> Some dt)
                | other \<Rightarrow> None))"

text \<open>The ASCII decimal digits \<open>0\<close> to \<open>9\<close>, and the strings of exactly ten of them.\<close>

definition is_ascii_digit :: "nat \<Rightarrow> bool" where
  "is_ascii_digit c = (48 \<le> c \<and> c \<le> 57)"

definition ten_ascii_digits :: "pystr \<Rightarrow> bool" where
  "ten_ascii_digits s = (length s = 10 \<and> list_all is_ascii_digit s)"

section \<open>Fields\<close>

text \<open>
  \<open>Field\<close> and its subclasses wrap one value. None of them defines \<open>__bool__\<close>,
  \<open>__len__\<close> or \<open>__eq__\<close>, so every such object is truthy.
\<close>

datatype Name = Name (name_value: pystr)

datatype Phone = Phone (phone_value: pystr)

datatype Birthday = Birthday (birthday_value: "pystr option")

definition Phone_truthy :: "Phone \<Rightarrow> bool" where
  "Phone_truthy p = True"

definition Birthday_truthy :: "Birthday \<Rightarrow> bool" where
  "Birthday_truthy b = True"

text \<open>Truth value of an optional string: \<open>None\<close> and \<open>""\<close> are falsy.\<close>

definition value_truthy :: "pystr option \<Rightarrow> bool" where
  "value_truthy v = (case v of None \<Rightarrow> False | Some s \<Rightarrow> s \<noteq> [])"

text \<open>What an f-string prints for an optional string.\<close>

definition format_value :: "pystr option \<Rightarrow> pystr" where
  "format_value v = (case v of None \<Rightarrow> ascii ''None'' | Some s \<Rightarrow> s)"

text \<open>
  \<open>Phone.__init__\<close>. The argument is a string, so \<open>isinstance(number, str)\<close> holds.
\<close>

definition Phone_init :: "pystr \<Rightarrow> exn + Phone" where
  "Phone_init number =
     (if \<not> str_isdigit number \<or> length number \<noteq> 10
      then Inl (ValueError (ascii ''The phone number must be a string of 10 digits''))
      else Inr (Phone number))"

text \<open>\<open>Birthday.__init__\<close>: a truthy value must parse; the value is stored as given.\<close>

definition Birthday_init :: "pystr option \<Rightarrow> exn + Birthday" where
  "Birthday_init v =
     (case v of
        None \<Rightarrow> Inr (Birthday v)
      | Some s \<Rightarrow>
          if s \<noteq> []
          then (case strptime s of
                  None \<Rightarrow> Inl (ValueError (ascii ''Birthday must be in format DD.MM.YYYY''))
                | Some parsed \<Rightarrow> Inr (Birthday v))
          else Inr (Birthday v))"

definition Birthday_repr :: "Birthday \<Rightarrow> pystr" where
  "Birthday_repr self =
     (if value_truthy (birthday_value self)
      then (case birthday_value self of Some s \<Rightarrow> s | None \<Rightarrow> [])
      else ascii ''No birthday'')"

text \<open>
  The texts that the three groups of the format can match, read off the regular
  expression: a day is \<open>1\<close> to \<open>9\<close>, that digit after a zero or a space, \<open>1\<close> or \<open>2\<close> followed
  by a decimal digit, or \<open>30\<close> or \<open>31\<close>; a month is \<open>1\<close> to \<open>9\<close>, that digit after a zero,
  or \<open>10\<close>, \<open>11\<close>, \<open>12\<close>; a year is four decimal digits.
\<close>

fun day_text :: "pystr \<Rightarrow> bool" where
  "day_text [a] = in_class 49 57 a"
| "day_text [a, b] =
     ((a = 51 \<and> in_class 48 49 b) \<or> (in_class 49 50 a \<and> isdecimal_char b) \<or>
      (a = 48 \<and> in_class 49 57 b) \<or> (a = 32 \<and> in_class 49 57 b))"
| "day_text t = False"

fun month_text :: "pystr \<Rightarrow> bool" where
  "month_text [a] = in_class 49 57 a"
| "month_text [a, b] = ((a = 49 \<and> in_class 48 50 b) \<or> (a = 48 \<and> in_class 49 57 b))"
| "month_text t = False"

definition year_text :: "pystr \<Rightarrow> bool" where
  "year_text t = (length t = 4 \<and> list_all isdecimal_char t)"

text \<open>The three texts denote a date of the calendar.\<close>

definition date_texts_valid :: "pystr \<Rightarrow> pystr \<Rightarrow> pystr \<Rightarrow> bool" where
  "date_texts_valid y m d =
     (case (py_int y, py_int m, py_int d) of
        (Some yy, Some mm, Some dd) \<Rightarrow> valid_date yy mm dd
      | other \<Rightarrow> False)"

text \<open>The number written by a string of ASCII digits.\<close>

definition ascii_number :: "pystr \<Rightarrow> int" where
  "ascii_number t = foldl (\<lambda>acc c. 10 * acc + (int c - 48)) 0 t"

text \<open>
  The strict shape \<open>DD.MM.YYYY\<close>: two ASCII digits, a dot, two ASCII digits, a dot, four
  ASCII digits.
\<close>

fun strict_shape :: "pystr \<Rightarrow> bool" where
  "strict_shape [d1, d2, p1, m1, m2, p2, y1, y2, y3, y4] =
     (is_ascii_digit d1 \<and> is_ascii_digit d2 \<and> p1 = 46 \<and> is_ascii_digit m1 \<and>
      is_ascii_digit m2 \<and> p2 = 46 \<and> is_ascii_digit y1 \<and> is_ascii_digit y2 \<and>
      is_ascii_digit y3 \<and> is_ascii_digit y4)"
| "strict_shape s = False"

section \<open>Record\<close>

record Record =
  name :: Name
  phones :: "Phone list"
  birthday :: Birthday

text \<open>\<open>Birthday(None)\<close> skips the parse and stores \<open>None\<close>.\<close>

definition Record_init :: "pystr \<Rightarrow> Record" where
  "Record_init n = \<lparr>name = Name n, phones = [], birthday = Birthday None\<rparr>"

text \<open>
  The methods mutate \<open>self\<close>. Each one returns the record as it is when the call ends,
  together with the outcome: the exception raised or the value returned.
\<close>

definition add_phone :: "Record \<Rightarrow> pystr \<Rightarrow> Record \<times> (exn + unit)" where
  "add_phone self number =
     (case Phone_init number of
        Inl e \<Rightarrow> (self, Inl e)
      | Inr phone \<Rightarrow> (self\<lparr>phones := phones self @ [phone]\<rparr>, Inr ()))"

definition add_birthday :: "Record \<Rightarrow> pystr option \<Rightarrow> Record \<times> (exn + unit)" where
  "add_birthday self v =
     (case Birthday_init v of
        Inl e \<Rightarrow> (self, Inl e)
      | Inr b \<Rightarrow> (self\<lparr>birthday := b\<rparr>, Inr ()))"

text \<open>
  \<open>remove_phone\<close> returns at the first phone whose value is \<open>number\<close>, after
  \<open>list.remove\<close> has deleted the first element equal to it.
\<close>

definition remove_phone :: "Record \<Rightarrow> pystr \<Rightarrow> Record \<times> bool" where
  "remove_phone self number =
     (case List.find (\<lambda>phone. phone_value phone = number) (phones self) of
        Some phone \<Rightarrow> (self\<lparr>phones := remove1 phone (phones self)\<rparr>, True)
      | None \<Rightarrow> (self, False))"

definition find_phone :: "Record \<Rightarrow> pystr \<Rightarrow> Phone option" where
  "find_phone self number = List.find (\<lambda>phone. phone_value phone = number) (phones self)"

definition edit_phone :: "Record \<Rightarrow> pystr \<Rightarrow> pystr \<Rightarrow> Record \<times> (exn + bool)" where
  "edit_phone self old_number new_number =
     (if (case find_phone self old_number of None \<Rightarrow> False | Some p \<Rightarrow> Phone_truthy p)
      then (case add_phone self new_number of
              (self1, Inl e) \<Rightarrow> (self1, Inl e)
            | (self1, Inr u) \<Rightarrow> (fst (remove_phone self1 old_number), Inr True))
      else (self, Inl (ValueError (ascii ''Old number '' @ old_number @ ascii '' not found''))))"

definition Record_str :: "Record \<Rightarrow> pystr" where
  "Record_str self =
     (let birthday_str =
            (if Birthday_truthy (birthday self)
             then ascii '', birthday: '' @ format_value (birthday_value (birthday self))
             else [])
      in ascii ''Contact name: '' @ name_value (name self) @ ascii '', phones: '' @
         str_join (ascii ''; '') (map phone_value (phones self)) @ birthday_str)"

section \<open>AddressBook\<close>

text \<open>
  The book is a \<open>dict\<close> from names to records: the keys are distinct and keep their
  insertion order. It is modelled as an association list.
\<close>

type_synonym AddressBook = "(pystr \<times> Record) list"

definition add_record :: "AddressBook \<Rightarrow> Record \<Rightarrow> AddressBook" where
  "add_record book record = AList.update (name_value (name record)) record book"

definition AddressBook_find :: "AddressBook \<Rightarrow> pystr \<Rightarrow> Record option" where
  "AddressBook_find book n = map_of book n"

definition AddressBook_delete :: "AddressBook \<Rightarrow> pystr \<Rightarrow> AddressBook \<times> (exn + unit)" where
  "AddressBook_delete book n =
     (if n \<in> set (map fst book)
      then (AList.delete n book, Inr ())
      else (book, Inl (ValueError (ascii ''Record with name '' @ n @ ascii '' not found.''))))"

subsection \<open>Upcoming birthdays\<close>

text \<open>
  \<open>get_upcoming_birthdays\<close>, with the value of \<open>datetime.now()\<close> as the argument
  \<open>today\<close>. The body of the loop is cut at its three assignments to
  \<open>this_year_birthday\<close>: the projection onto the current year, the roll to the next
  year, and the weekend shift.
\<close>

definition project_year :: "datetime \<Rightarrow> datetime \<Rightarrow> exn + datetime" where
  "project_year today birthday_date = replace_year birthday_date (year today)"

definition roll_forward :: "datetime \<Rightarrow> datetime \<Rightarrow> exn + datetime" where
  "roll_forward today this_year_birthday =
     (if datetime_lt this_year_birthday today
      then replace_year this_year_birthday (year today + 1)
      else Inr this_year_birthday)"

definition weekend_shift :: "datetime \<Rightarrow> exn + datetime" where
  "weekend_shift this_year_birthday =
     (if weekday this_year_birthday = 5
      then datetime_add this_year_birthday (timedelta_new 2 0 0)
      else if weekday this_year_birthday = 6
      then datetime_add this_year_birthday (timedelta_new 1 0 0)
      else Inr this_year_birthday)"

definition adjusted_birthday :: "datetime \<Rightarrow> datetime \<Rightarrow> exn + datetime" where
  "adjusted_birthday today birthday_date =
     (case project_year today birthday_date of
        Inl e \<Rightarrow> Inl e
      | Inr projected \<Rightarrow>
          (case roll_forward today projected of
             Inl e \<Rightarrow> Inl e
           | Inr candidate \<Rightarrow> weekend_shift candidate))"

type_synonym pydict = "(pystr \<times> pystr) list"

definition loop_body :: "datetime \<Rightarrow> Record \<Rightarrow> pydict list \<Rightarrow> exn + pydict list" where
  "loop_body today record upcoming_birthdays =
     (if Birthday_truthy (birthday record) \<and> value_truthy (birthday_value (birthday record))
      then (case strptime (case birthday_value (birthday record) of Some s \<Rightarrow> s | None \<Rightarrow> []) of
              None \<Rightarrow> Inr upcoming_birthdays
            | Some birthday_date \<Rightarrow>
                (case adjusted_birthday today birthday_date of
                   Inl e \<Rightarrow> Inl e
                 | Inr this_year_birthday \<Rightarrow>
                     (let days_until_birthday = days (datetime_sub this_year_birthday today)
                      in if 0 \<le> days_until_birthday \<and> days_until_birthday \<le> 7
                         then Inr (upcoming_birthdays @
                                [[(ascii ''name'', name_value (name record)),
                                  (ascii ''birthday'', strftime this_year_birthday)]])
                         else Inr upcoming_birthdays)))
      else Inr upcoming_birthdays)"

fun upcoming_loop :: "datetime \<Rightarrow> Record list \<Rightarrow> pydict list \<Rightarrow> exn + pydict list" where
  "upcoming_loop today [] upcoming_birthdays = Inr upcoming_birthdays"
| "upcoming_loop today (record # records) upcoming_birthdays =
     (case loop_body today record upcoming_birthdays of
        Inl e \<Rightarrow> Inl e
      | Inr upcoming_birthdays' \<Rightarrow> upcoming_loop today records upcoming_birthdays')"

definition get_upcoming_birthdays :: "datetime \<Rightarrow> AddressBook \<Rightarrow> exn + pydict list" where
  "get_upcoming_birthdays today book = upcoming_loop today (map snd book) []"

section \<open>Phone numbers\<close>

lemma decimal_value_low:
  "c < 1632 \<Longrightarrow> decimal_value c = (if 48 \<le> c \<and> c \<le> 57 then Some (c - 48) else None)"
  by (simp add: decimal_value_def decimal_zeros_def)

lemma digit_only_low:
  "c < 128 \<Longrightarrow> \<not> list_ex (\<lambda>(lo, hi). lo \<le> c \<and> c \<le> hi) digit_only_ranges"
  by (simp add: digit_only_ranges_def)

lemma ascii_isdigit_char: "c < 128 \<Longrightarrow> isdigit_char c = is_ascii_digit c"
  by (simp add: isdigit_char_def isdecimal_char_def decimal_value_low digit_only_low
      is_ascii_digit_def)

lemma is_ascii_digit_isdigit: "is_ascii_digit c \<Longrightarrow> isdigit_char c"
  using ascii_isdigit_char [of c] by (simp add: is_ascii_digit_def)

lemma Phone_init_accepts:
  "length number = 10 \<Longrightarrow> list_all isdigit_char number \<Longrightarrow>
   Phone_init number = Inr (Phone number)"
  unfolding Phone_init_def str_isdigit_def by (cases number) simp_all

lemma Phone_init_Inr_iff:
  "Phone_init raw = Inr p \<longleftrightarrow> p = Phone raw \<and> length raw = 10 \<and> list_all isdigit_char raw"
  unfolding Phone_init_def str_isdigit_def by (cases raw) auto

lemma Phone_init_cases:
  "Phone_init raw = Inr (Phone raw) \<or>
   Phone_init raw = Inl (ValueError (ascii ''The phone number must be a string of 10 digits''))"
  unfolding Phone_init_def by simp

lemma arabic_indic_isdigit: "isdigit_char 1633"
  by (simp add: isdigit_char_def isdecimal_char_def decimal_value_def decimal_zeros_def)

text \<open>
  C4, as stated, fails: ten times U+0661 (ARABIC-INDIC DIGIT ONE) is a string of ten
  characters on which \<open>isdigit\<close> holds, so \<open>Phone\<close> accepts it, and none of its
  characters is an ASCII digit.
\<close>

theorem Phone_init_arabic_indic:
  "Phone_init [1633, 1633, 1633, 1633, 1633, 1633, 1633, 1633, 1633, 1633]
     = Inr (Phone [1633, 1633, 1633, 1633, 1633, 1633, 1633, 1633, 1633, 1633])
   \<and> \<not> ten_ascii_digits [1633, 1633, 1633, 1633, 1633, 1633, 1633, 1633, 1633, 1633]"
  by (simp add: Phone_init_def str_isdigit_def arabic_indic_isdigit ten_ascii_digits_def
      is_ascii_digit_def)

text \<open>
  C4, amended: \<open>Phone(raw)\<close> succeeds, storing \<open>raw\<close> verbatim, if and only if
  \<open>raw\<close> has exactly ten characters and each is a Unicode digit in the sense of
  \<open>str.isdigit\<close>; every other string fails with the \<open>ValueError\<close> of the phone
  check. For a string of ASCII characters this is: exactly ten ASCII decimal digits.
\<close>

theorem Phone_init_spec:
  "(Phone_init raw = Inr p \<longleftrightarrow>
      p = Phone raw \<and> length raw = 10 \<and> (\<forall>c \<in> set raw. isdigit_char c))
   \<and> ((\<nexists>p. Phone_init raw = Inr p) \<longrightarrow>
        Phone_init raw = Inl (ValueError (ascii ''The phone number must be a string of 10 digits'')))
   \<and> ((\<forall>c \<in> set raw. c < 128) \<longrightarrow>
        (Phone_init raw = Inr (Phone raw) \<longleftrightarrow> ten_ascii_digits raw))"
proof (intro conjI impI)
  show "Phone_init raw = Inr p \<longleftrightarrow>
      p = Phone raw \<and> length raw = 10 \<and> (\<forall>c \<in> set raw. isdigit_char c)"
    by (simp add: Phone_init_Inr_iff list_all_iff)
next
  assume "\<nexists>p. Phone_init raw = Inr p"
  with Phone_init_cases [of raw]
  show "Phone_init raw = Inl (ValueError (ascii ''The phone number must be a string of 10 digits''))"
    by blast
next
  assume low: "\<forall>c \<in> set raw. c < 128"
  then have "list_all isdigit_char raw = list_all is_ascii_digit raw"
    by (simp add: list_all_iff ascii_isdigit_char)
  then show "Phone_init raw = Inr (Phone raw) \<longleftrightarrow> ten_ascii_digits raw"
    by (simp add: Phone_init_Inr_iff ten_ascii_digits_def)
qed

theorem Phone_init_spec_witness:
  "Phone_init (ascii ''0501234567'') = Inr (Phone (ascii ''0501234567''))
   \<and> Phone_init (ascii ''050-123-45'') =
       Inl (ValueError (ascii ''The phone number must be a string of 10 digits''))"
proof -
  have a: "\<forall>c \<in> set (ascii ''0501234567''). c < 128" by (simp add: ascii_def)
  have b: "ten_ascii_digits (ascii ''0501234567'')"
    by (simp add: ten_ascii_digits_def is_ascii_digit_def ascii_def)
  have c: "\<nexists>p. Phone_init (ascii ''050-123-45'') = Inr p"
    using Phone_init_spec [of "ascii ''050-123-45''"]
    by (simp add: ascii_def isdigit_char_def isdecimal_char_def decimal_value_low
        digit_only_low)
  from Phone_init_spec [of "ascii ''0501234567''"] a b
  have "Phone_init (ascii ''0501234567'') = Inr (Phone (ascii ''0501234567''))" by blast
  moreover from Phone_init_spec [of "ascii ''050-123-45''"] c
  have "Phone_init (ascii ''050-123-45'') =
       Inl (ValueError (ascii ''The phone number must be a string of 10 digits''))" by blast
  ultimately show ?thesis by simp
qed

section \<open>Editing the phones of a record\<close>

lemma find_phone_None_iff:
  "find_phone self n = None \<longleftrightarrow> n \<notin> set (map phone_value (phones self))"
  by (auto simp: find_phone_def find_None_iff)

lemma find_phone_value:
  "List.find (\<lambda>phone. phone_value phone = n) ps = Some p \<Longrightarrow> p = Phone n"
  by (induction ps) (auto split: if_splits intro: Phone.expand)

lemma find_append_left:
  "List.find P xs = Some x \<Longrightarrow> List.find P (xs @ ys) = Some x"
  by (induction xs) (auto split: if_splits)

lemma Phone_init_rejects:
  assumes "\<not> (length new = 10 \<and> (\<forall>c \<in> set new. isdigit_char c))"
  shows "Phone_init new = Inl (ValueError (ascii ''The phone number must be a string of 10 digits''))"
proof -
  from assms have "Phone_init new \<noteq> Inr (Phone new)"
    by (simp add: Phone_init_Inr_iff list_all_iff)
  with Phone_init_cases [of new] show ?thesis by blast
qed

lemma edit_phone_absent:
  assumes "old \<notin> set (map phone_value (phones self))"
  shows "edit_phone self old new =
           (self, Inl (ValueError (ascii ''Old number '' @ old @ ascii '' not found'')))"
proof -
  from assms have "find_phone self old = None" by (simp add: find_phone_None_iff)
  then show ?thesis by (simp add: edit_phone_def)
qed

lemma edit_phone_invalid_new:
  assumes "old \<in> set (map phone_value (phones self))"
    and "\<not> (length new = 10 \<and> (\<forall>c \<in> set new. isdigit_char c))"
  shows "edit_phone self old new =
           (self, Inl (ValueError (ascii ''The phone number must be a string of 10 digits'')))"
proof -
  from assms(1) obtain p where p: "find_phone self old = Some p"
    using find_phone_None_iff [of self old] by (cases "find_phone self old") auto
  have a: "add_phone self new =
      (self, Inl (ValueError (ascii ''The phone number must be a string of 10 digits'')))"
    by (simp add: add_phone_def Phone_init_rejects [OF assms(2)])
  show ?thesis using p a by (simp add: edit_phone_def Phone_truthy_def)
qed

text \<open>
  C6: \<open>edit_phone(old, new)\<close> raises the "not found" \<open>ValueError\<close> when no phone of the
  record has the value \<open>old\<close>, and raises the \<open>ValueError\<close> of the phone check when the
  record holds \<open>old\<close> and \<open>new\<close> is not a valid phone number; in both cases the record is
  left as it was, \<open>old\<close> included. These are the only ways it raises, and whenever it
  raises the record (its phone list included) is as it was before the call.
\<close>

theorem edit_phone_failure:
  "(old \<notin> set (map phone_value (phones self)) \<longrightarrow>
      edit_phone self old new =
        (self, Inl (ValueError (ascii ''Old number '' @ old @ ascii '' not found''))))
   \<and> (old \<in> set (map phone_value (phones self))
        \<and> \<not> (length new = 10 \<and> (\<forall>c \<in> set new. isdigit_char c)) \<longrightarrow>
      edit_phone self old new =
        (self, Inl (ValueError (ascii ''The phone number must be a string of 10 digits''))))
   \<and> ((\<exists>e. snd (edit_phone self old new) = Inl e) \<longleftrightarrow>
        old \<notin> set (map phone_value (phones self))
        \<or> \<not> (length new = 10 \<and> (\<forall>c \<in> set new. isdigit_char c)))
   \<and> (\<forall>e. snd (edit_phone self old new) = Inl e \<longrightarrow>
        fst (edit_phone self old new) = self)"
proof (intro conjI impI allI)
  assume "old \<notin> set (map phone_value (phones self))"
  then show "edit_phone self old new =
        (self, Inl (ValueError (ascii ''Old number '' @ old @ ascii '' not found'')))"
    by (rule edit_phone_absent)
next
  assume "old \<in> set (map phone_value (phones self))
        \<and> \<not> (length new = 10 \<and> (\<forall>c \<in> set new. isdigit_char c))"
  then show "edit_phone self old new =
        (self, Inl (ValueError (ascii ''The phone number must be a string of 10 digits'')))"
    by (intro edit_phone_invalid_new) simp_all
next
  show "(\<exists>e. snd (edit_phone self old new) = Inl e) \<longleftrightarrow>
        old \<notin> set (map phone_value (phones self))
        \<or> \<not> (length new = 10 \<and> (\<forall>c \<in> set new. isdigit_char c))"
  proof (cases "old \<in> set (map phone_value (phones self))")
    case False
    with edit_phone_absent [OF False, of new] show ?thesis by simp
  next
    case True
    show ?thesis
    proof (cases "length new = 10 \<and> (\<forall>c \<in> set new. isdigit_char c)")
      case valid: True
      from True obtain p where p: "find_phone self old = Some p"
        using find_phone_None_iff [of self old] by (cases "find_phone self old") auto
      from valid have "Phone_init new = Inr (Phone new)"
        by (simp add: Phone_init_accepts list_all_iff)
      with p have "snd (edit_phone self old new) = Inr True"
        by (simp add: edit_phone_def Phone_truthy_def add_phone_def)
      with True valid show ?thesis by simp
    next
      case False
      with edit_phone_invalid_new [OF True False] True show ?thesis by simp
    qed
  qed
next
  fix e assume "snd (edit_phone self old new) = Inl e"
  then show "fst (edit_phone self old new) = self"
    by (auto simp: edit_phone_def add_phone_def split: if_splits sum.splits prod.splits)
qed

theorem edit_phone_failure_witness:
  "edit_phone (Record_init (ascii ''Ann'')\<lparr>phones := [Phone (ascii ''1111111111'')]\<rparr>)
         (ascii ''9999999999'') (ascii ''2222222222'')
     = (Record_init (ascii ''Ann'')\<lparr>phones := [Phone (ascii ''1111111111'')]\<rparr>,
        Inl (ValueError (ascii ''Old number 9999999999 not found'')))
   \<and> edit_phone (Record_init (ascii ''Ann'')\<lparr>phones := [Phone (ascii ''1111111111'')]\<rparr>)
         (ascii ''1111111111'') (ascii ''12345'')
     = (Record_init (ascii ''Ann'')\<lparr>phones := [Phone (ascii ''1111111111'')]\<rparr>,
        Inl (ValueError (ascii ''The phone number must be a string of 10 digits'')))"
proof -
  let ?r = "Record_init (ascii ''Ann'')\<lparr>phones := [Phone (ascii ''1111111111'')]\<rparr>"
  have a: "ascii ''9999999999'' \<notin> set (map phone_value (phones ?r))"
    by (simp add: ascii_def)
  have b: "ascii ''1111111111'' \<in> set (map phone_value (phones ?r))
      \<and> \<not> (length (ascii ''12345'') = 10 \<and> (\<forall>c \<in> set (ascii ''12345''). isdigit_char c))"
    by (simp add: ascii_def)
  from edit_phone_failure [of "ascii ''9999999999''" ?r "ascii ''2222222222''"] a
  have 1: "edit_phone ?r (ascii ''9999999999'') (ascii ''2222222222'')
     = (?r, Inl (ValueError (ascii ''Old number '' @ ascii ''9999999999'' @ ascii '' not found'')))"
    by blast
  from edit_phone_failure [of "ascii ''1111111111''" ?r "ascii ''12345''"] b
  have 2: "edit_phone ?r (ascii ''1111111111'') (ascii ''12345'')
     = (?r, Inl (ValueError (ascii ''The phone number must be a string of 10 digits'')))"
    by blast
  from 1 2 show ?thesis by (simp add: ascii_def)
qed

text \<open>
  C7: when some phone of the record has the value \<open>old\<close> and \<open>new\<close> is a valid ten-digit
  string, \<open>edit_phone(old, new)\<close> returns \<open>True\<close> and the phone list afterwards is the
  old one without its first occurrence of \<open>old\<close>, followed by \<open>new\<close>.
\<close>

theorem edit_phone_success:
  assumes "old \<in> set (map phone_value (phones self))"
    and "length new = 10" and "\<forall>c \<in> set new. isdigit_char c"
  shows "edit_phone self old new =
           (self\<lparr>phones := remove1 (Phone old) (phones self) @ [Phone new]\<rparr>, Inr True)"
proof -
  from assms(1) obtain p where p: "find_phone self old = Some p"
    using find_phone_None_iff [of self old] by (cases "find_phone self old") auto
  have a: "add_phone self new = (self\<lparr>phones := phones self @ [Phone new]\<rparr>, Inr ())"
    using assms(2,3) by (simp add: add_phone_def Phone_init_accepts list_all_iff)
  from assms(1) obtain q where q: "List.find (\<lambda>phone. phone_value phone = old) (phones self) = Some q"
    using p by (simp add: find_phone_def)
  then have qq: "q = Phone old" by (rule find_phone_value)
  have mem: "Phone old \<in> set (phones self)"
    using q qq by (auto simp: find_Some_iff)
  have f: "List.find (\<lambda>phone. phone_value phone = old) (phones self @ [Phone new]) = Some (Phone old)"
    using q qq by (simp add: find_append_left)
  have r: "remove_phone (self\<lparr>phones := phones self @ [Phone new]\<rparr>) old =
        (self\<lparr>phones := remove1 (Phone old) (phones self) @ [Phone new]\<rparr>, True)"
    using f mem by (simp add: remove_phone_def remove1_append)
  show ?thesis
    using p a r by (simp add: edit_phone_def Phone_truthy_def)
qed

theorem edit_phone_success_witness:
  "edit_phone (Record_init (ascii ''Ann'')\<lparr>phones := [Phone (ascii ''1111111111'')]\<rparr>)
         (ascii ''1111111111'') (ascii ''2222222222'')
     = (Record_init (ascii ''Ann'')\<lparr>phones := [Phone (ascii ''2222222222'')]\<rparr>, Inr True)"
proof -
  have d: "\<forall>c \<in> set (ascii ''2222222222''). isdigit_char c"
    by (simp add: ascii_def ascii_isdigit_char is_ascii_digit_def)
  have l: "length (ascii ''2222222222'') = 10" by (simp add: ascii_def)
  have m: "ascii ''1111111111'' \<in> set (map phone_value
      (phones (Record_init (ascii ''Ann'')\<lparr>phones := [Phone (ascii ''1111111111'')]\<rparr>)))"
    by simp
  show ?thesis
    using edit_phone_success [OF m l d] by simp
qed

section \<open>Rendering a record\<close>

text \<open>
  C8 says that no birthday text appears for a record without a birthday. The code tests
  the truth value of the \<open>Birthday\<close> object, which is always true, instead of its value:
  a fresh record named John renders with the suffix \<open>, birthday: None\<close>.
\<close>

theorem Record_str_no_birthday:
  "Record_str (Record_init (ascii ''John'')) =
     ascii ''Contact name: John, phones: , birthday: None''"
  by (simp add: Record_str_def Record_init_def Birthday_truthy_def format_value_def ascii_def)

section \<open>Deleting from the book\<close>

text \<open>
  C10: \<open>delete(name)\<close> raises the "not found" \<open>ValueError\<close>, leaving the book as it
  is, when \<open>name\<close> is not a key of the book; when it is a key, \<open>delete\<close> returns and
  \<open>find(name)\<close> on the book afterwards is \<open>None\<close>.
\<close>

theorem AddressBook_delete_spec:
  "(n \<notin> set (map fst book) \<longrightarrow>
      AddressBook_delete book n =
        (book, Inl (ValueError (ascii ''Record with name '' @ n @ ascii '' not found.''))))
   \<and> (n \<in> set (map fst book) \<longrightarrow>
      snd (AddressBook_delete book n) = Inr ()
      \<and> AddressBook_find (fst (AddressBook_delete book n)) n = None)"
  by (simp add: AddressBook_delete_def AddressBook_find_def delete_conv')

theorem AddressBook_delete_spec_witness:
  "AddressBook_delete [] (ascii ''Bob'') =
      ([], Inl (ValueError (ascii ''Record with name Bob not found.'')))
   \<and> snd (AddressBook_delete (add_record [] (Record_init (ascii ''Bob''))) (ascii ''Bob'')) = Inr ()
   \<and> AddressBook_find
        (fst (AddressBook_delete (add_record [] (Record_init (ascii ''Bob''))) (ascii ''Bob'')))
        (ascii ''Bob'') = None"
  using AddressBook_delete_spec [of "ascii ''Bob''" "[]"]
    AddressBook_delete_spec [of "ascii ''Bob''" "add_record [] (Record_init (ascii ''Bob''))"]
  by (simp add: add_record_def Record_init_def ascii_def)

section \<open>Calendar arithmetic\<close>

text \<open>
  \<open>_ord2ymd\<close> inverts \<open>_ymd2ord\<close> and returns a date of the calendar; the
  ordinals of the dates of the years 1 to 9999 are the numbers 1 to \<open>MAXORDINAL\<close>.
\<close>

lemma div_decomp: "0 \<le> r \<Longrightarrow> r < k \<Longrightarrow> (k * q + r) div k = (q::int)"
  by (cases "k = 0") (simp_all add: div_pos_pos_trivial)

lemma mod_decomp: "0 \<le> r \<Longrightarrow> r < k \<Longrightarrow> (k * q + r) mod k = (r::int)"
  by (cases "k = 0") (simp_all add: mod_pos_pos_trivial)

lemma mod_zero_iff:
  "0 \<le> r \<Longrightarrow> r \<le> k \<Longrightarrow> 0 < k \<Longrightarrow> ((k * q + r) mod k = 0) = (r = 0 \<or> r = (k::int))"
proof (cases "r = k")
  case True
  assume "0 < k"
  with True show ?thesis by simp
next
  case False
  assume "0 \<le> r" "r \<le> k"
  with False show ?thesis using mod_decomp [of r k q] by simp
qed

lemma div_upper:
  fixes x k q :: int
  assumes "0 < k" "x < k * (q + 1)"
  shows "x div k \<le> q"
proof (rule ccontr)
  assume "\<not> x div k \<le> q"
  then have "q + 1 \<le> x div k" by simp
  then have "k * (q + 1) \<le> k * (x div k)" using assms(1) by (simp add: mult_left_mono)
  moreover have "k * (x div k) \<le> x"
    using pos_mod_sign [OF assms(1), of x] mult_div_mod_eq [of k x] by linarith
  ultimately show False using assms(2) by linarith
qed

lemma DI_values: "DI400Y = 146097" "DI100Y = 36524" "DI4Y = 1461"
  by (simp_all add: DI400Y_def DI100Y_def DI4Y_def days_before_year_def)

lemma days_before_year_decomp:
  fixes a b c d :: int
  assumes "0 \<le> b" "b \<le> 3" "0 \<le> c" "c \<le> 24" "0 \<le> d" "d \<le> 3"
  shows "days_before_year (400 * a + 100 * b + 4 * c + d + 1) =
         146097 * a + 36524 * b + 1461 * c + 365 * d"
proof -
  let ?y = "400 * a + 100 * b + 4 * c + d"
  have "?y = 4 * (100 * a + 25 * b + c) + d" by simp
  then have d4: "?y div 4 = 100 * a + 25 * b + c"
    using div_decomp [of d 4 "100 * a + 25 * b + c"] assms by simp
  have "?y = 100 * (4 * a + b) + (4 * c + d)" by simp
  then have d100: "?y div 100 = 4 * a + b"
    using div_decomp [of "4 * c + d" 100 "4 * a + b"] assms by simp
  have d400: "?y div 400 = a"
    using div_decomp [of "100 * b + 4 * c + d" 400 a] assms by (simp add: add.assoc)
  show ?thesis
    unfolding days_before_year_def Let_def
    using d4 d100 d400 by simp
qed

lemma is_leap_decomp:
  fixes a b c d :: int
  assumes "0 \<le> b" "b \<le> 3" "0 \<le> c" "c \<le> 24" "0 \<le> d" "d \<le> 3"
  shows "is_leap (400 * a + 100 * b + 4 * c + d + 1) \<longleftrightarrow> d = 3 \<and> (c \<noteq> 24 \<or> b = 3)"
proof -
  let ?y = "400 * a + 100 * b + 4 * c + d + 1"
  have eq4: "?y = 4 * (100 * a + 25 * b + c) + (d + 1)" by simp
  have e4: "?y mod 4 = 0 \<longleftrightarrow> d = 3"
    apply (subst eq4)
    using mod_zero_iff [of "d + 1" 4 "100 * a + 25 * b + c"] assms by simp
  have eq100: "?y = 100 * (4 * a + b) + (4 * c + d + 1)" by simp
  have e100: "?y mod 100 = 0 \<longleftrightarrow> 4 * c + d + 1 = 100"
    apply (subst eq100)
    using mod_zero_iff [of "4 * c + d + 1" 100 "4 * a + b"] assms by simp
  have eq400: "?y = 400 * a + (100 * b + 4 * c + d + 1)" by simp
  have e400: "?y mod 400 = 0 \<longleftrightarrow> 100 * b + 4 * c + d + 1 = 400"
    apply (subst eq400)
    using mod_zero_iff [of "100 * b + 4 * c + d + 1" 400 a] assms by simp
  have "4 * c + d + 1 = 100 \<longleftrightarrow> c = 24 \<and> d = 3" using assms by linarith
  moreover have "100 * b + 4 * c + d + 1 = 400 \<longleftrightarrow> b = 3 \<and> c = 24 \<and> d = 3"
    using assms by linarith
  ultimately show ?thesis
    unfolding is_leap_def e4 e100 e400 by blast
qed

lemma int_1_12_cases:
  "1 \<le> k \<Longrightarrow> k \<le> 12 \<Longrightarrow>
   k = 1 \<or> k = 2 \<or> k = 3 \<or> k = 4 \<or> k = 5 \<or> k = 6 \<or> k = 7 \<or> k = 8 \<or> k = 9 \<or> k = 10
   \<or> k = 11 \<or> k = (12::int)"
  by arith

lemma ord2ymd_month_correct:
  fixes n yr :: int
  assumes "0 \<le> n" "n \<le> 364"
  shows "\<exists>M D. ord2ymd_month yr leapyear n = (yr, M, D) \<and> 1 \<le> M \<and> M \<le> 12 \<and> 1 \<le> D
      \<and> D \<le> (if M = 2 \<and> leapyear then 29 else DAYS_IN_MONTH ! nat M)
      \<and> DAYS_BEFORE_MONTH ! nat M + (if M > 2 \<and> leapyear then 1 else 0) + D = n + 1"
proof -
  define k where "k = (n + 50) div 32"
  have kb: "1 \<le> k" "k \<le> 12" and nb: "32 * k \<le> n + 50" "n + 50 < 32 * k + 32"
    using assms unfolding k_def by linarith+
  from kb consider "k = 1" | "k = 2" | "k = 3" | "k = 4" | "k = 5" | "k = 6" | "k = 7"
    | "k = 8" | "k = 9" | "k = 10" | "k = 11" | "k = 12" using int_1_12_cases by blast
  then show ?thesis
    by cases (insert nb assms, unfold ord2ymd_month_def k_def [symmetric] Let_def,
       (cases leapyear; auto simp: DAYS_BEFORE_MONTH_def DAYS_IN_MONTH_def)+)
qed

lemma ord2ymd_core:
  fixes a b c d r1 r2 r3 r4 n0 :: int
  assumes n: "n0 - 1 = 146097 * a + r1" and r1: "r1 = 36524 * b + r2"
    and r2: "r2 = 1461 * c + r3" and r3: "r3 = 365 * d + r4"
    and a0: "0 \<le> a"
    and r1b: "0 \<le> r1" "r1 < 146097" and r2b: "0 \<le> r2" "r2 < 36524"
    and r3b: "0 \<le> r3" "r3 < 1461" and r4b: "0 \<le> r4" "r4 < 365"
    and b: "0 \<le> b" "b \<le> 4" and c: "0 \<le> c" "c \<le> 24" and d: "0 \<le> d" "d \<le> 4"
    and R: "R = (if d = 4 \<or> b = 4 then (a * 400 + 1 + (b * 100 + c * 4 + d) - 1, 12, 31)
               else ord2ymd_month (a * 400 + 1 + (b * 100 + c * 4 + d))
                      (d = 3 \<and> (c \<noteq> 24 \<or> b = 3)) r4)"
  shows "\<exists>y m dd. R = (y, m, dd) \<and> ymd2ord y m dd = n0 \<and> 1 \<le> y \<and> 1 \<le> m \<and> m \<le> 12
           \<and> 1 \<le> dd \<and> dd \<le> days_in_month y m
           \<and> days_before_year y < n0"
proof -
  have total: "n0 = 146097 * a + 36524 * b + 1461 * c + 365 * d + r4 + 1"
    using n r1 r2 r3 by linarith
  show ?thesis
  proof (cases "d = 4 \<or> b = 4")
    case True
    define Y where "Y = 400 * a + 100 * b + 4 * c + d"
    have res: "R = (Y, 12, 31)"
      using R True by (simp add: Y_def)
    have "\<exists>b' c'. 0 \<le> b' \<and> b' \<le> 3 \<and> 0 \<le> c' \<and> c' \<le> 24 \<and> (c' \<noteq> 24 \<or> b' = 3)
        \<and> Y = 400 * a + 100 * b' + 4 * c' + 3 + 1
        \<and> n0 = 146097 * a + 36524 * b' + 1461 * c' + 365 * 3 + 366"
    proof (cases "b = 4")
      case True
      then have "r2 = 0" using r1 r1b r2b by linarith
      then have "c = 0" "d = 0" "r4 = 0" using r2 r3 c d r3b r4b by linarith+
      with True total have "Y = 400 * a + 100 * 3 + 4 * 24 + 3 + 1
        \<and> n0 = 146097 * a + 36524 * 3 + 1461 * 24 + 365 * 3 + 366"
        unfolding Y_def by linarith
      then show ?thesis by (intro exI [of _ 3] exI [of _ 24]) simp
    next
      case False
      with \<open>d = 4 \<or> b = 4\<close> have d4: "d = 4" by simp
      then have "r4 = 0" using r3 r3b r4b by linarith
      moreover have "c \<le> 23" using d4 r2 r3 r2b r4b by linarith
      moreover have "b \<le> 3" using False b by linarith
      ultimately have "0 \<le> b \<and> b \<le> 3 \<and> 0 \<le> c \<and> c \<le> 24 \<and> (c \<noteq> 24 \<or> b = 3)
        \<and> Y = 400 * a + 100 * b + 4 * c + 3 + 1
        \<and> n0 = 146097 * a + 36524 * b + 1461 * c + 365 * 3 + 366"
        using d4 total b c unfolding Y_def by linarith
      then show ?thesis by blast
    qed
    then obtain b' c' where bc: "0 \<le> b'" "b' \<le> 3" "0 \<le> c'" "c' \<le> 24" "c' \<noteq> 24 \<or> b' = 3"
      and Y: "Y = 400 * a + 100 * b' + 4 * c' + 3 + 1"
      and n0: "n0 = 146097 * a + 36524 * b' + 1461 * c' + 365 * 3 + 366" by blast
    have dby: "days_before_year Y = 146097 * a + 36524 * b' + 1461 * c' + 365 * 3"
      unfolding Y using days_before_year_decomp [of b' c' 3 a] bc by simp
    have leap: "is_leap Y"
      unfolding Y using is_leap_decomp [of b' c' 3 a] bc by simp
    have "ymd2ord Y 12 31 = n0"
      using dby leap n0 by (simp add: ymd2ord_def days_before_month_def DAYS_BEFORE_MONTH_def)
    moreover have "1 \<le> Y" using Y a0 bc by linarith
    moreover have "days_in_month Y 12 = 31" by (simp add: days_in_month_def DAYS_IN_MONTH_def)
    moreover have "days_before_year Y < n0" using dby n0 by linarith
    ultimately show ?thesis using res by simp
  next
    case False
    then have b3: "b \<le> 3" and d3: "d \<le> 3" using b d by linarith+
    define Y where "Y = 400 * a + 100 * b + 4 * c + d + 1"
    define L where "L = (d = 3 \<and> (c \<noteq> 24 \<or> b = 3))"
    have dby: "days_before_year Y = 146097 * a + 36524 * b + 1461 * c + 365 * d"
      unfolding Y_def using days_before_year_decomp [of b c d a] b c d b3 d3 by simp
    have leap: "is_leap Y = L"
      unfolding Y_def L_def using is_leap_decomp [of b c d a] b c d b3 d3 by simp
    have "0 \<le> r4" "r4 \<le> 364" using r4b by linarith+
    from ord2ymd_month_correct [OF this, of Y L]
    obtain M D where expr: "ord2ymd_month Y L r4 = (Y, M, D)"
      and MD: "1 \<le> M" "M \<le> 12" "1 \<le> D"
      "D \<le> (if M = 2 \<and> L then 29 else DAYS_IN_MONTH ! nat M)"
      "DAYS_BEFORE_MONTH ! nat M + (if M > 2 \<and> L then 1 else 0) + D = r4 + 1"
      by blast
    have yr: "a * 400 + 1 + (b * 100 + c * 4 + d) = Y" unfolding Y_def by simp
    have res: "R = (Y, M, D)"
      using R False expr unfolding yr L_def [symmetric] by simp
    have "ymd2ord Y M D = n0"
      using dby leap MD(5) total by (simp add: ymd2ord_def days_before_month_def)
    moreover have "1 \<le> Y" using a0 b c d unfolding Y_def by linarith
    moreover have "D \<le> days_in_month Y M" using MD(4) leap by (simp add: days_in_month_def)
    moreover have "days_before_year Y < n0" using dby total r4b by linarith
    ultimately show ?thesis using res MD by simp
  qed
qed

lemma ord2ymd_correct:
  assumes "1 \<le> n0"
  shows "\<exists>y m d. ord2ymd n0 = (y, m, d) \<and> ymd2ord y m d = n0 \<and> 1 \<le> y \<and> 1 \<le> m \<and> m \<le> 12
           \<and> 1 \<le> d \<and> d \<le> days_in_month y m
           \<and> days_before_year y < n0"
proof -
  let ?n = "n0 - 1"
  let ?a = "?n div 146097" let ?r1 = "?n mod 146097"
  let ?b = "?r1 div 36524" let ?r2 = "?r1 mod 36524"
  let ?c = "?r2 div 1461" let ?r3 = "?r2 mod 1461"
  let ?d = "?r3 div 365" let ?r4 = "?r3 mod 365"
  have n: "?n = 146097 * ?a + ?r1" by (rule mult_div_mod_eq [symmetric])
  have r1: "?r1 = 36524 * ?b + ?r2" by (rule mult_div_mod_eq [symmetric])
  have r2: "?r2 = 1461 * ?c + ?r3" by (rule mult_div_mod_eq [symmetric])
  have r3: "?r3 = 365 * ?d + ?r4" by (rule mult_div_mod_eq [symmetric])
  have r1b: "0 \<le> ?r1" "?r1 < 146097"
    by (rule pos_mod_sign, simp) (rule pos_mod_bound, simp)
  have r2b: "0 \<le> ?r2" "?r2 < 36524"
    by (rule pos_mod_sign, simp) (rule pos_mod_bound, simp)
  have r3b: "0 \<le> ?r3" "?r3 < 1461"
    by (rule pos_mod_sign, simp) (rule pos_mod_bound, simp)
  have r4b: "0 \<le> ?r4" "?r4 < 365"
    by (rule pos_mod_sign, simp) (rule pos_mod_bound, simp)
  have "0 \<le> ?n" using assms by simp
  then have a0: "0 \<le> ?a" by (rule pos_imp_zdiv_nonneg_iff [THEN iffD2, rotated]) simp
  have b: "0 \<le> ?b" "?b \<le> 4"
    using r1b(1) apply (rule pos_imp_zdiv_nonneg_iff [THEN iffD2, rotated]) apply simp
    using r1b(2) by (intro div_upper) simp_all
  have c: "0 \<le> ?c" "?c \<le> 24"
    using r2b(1) apply (rule pos_imp_zdiv_nonneg_iff [THEN iffD2, rotated]) apply simp
    using r2b(2) by (intro div_upper) simp_all
  have d: "0 \<le> ?d" "?d \<le> 4"
    using r3b(1) apply (rule pos_imp_zdiv_nonneg_iff [THEN iffD2, rotated]) apply simp
    using r3b(2) by (intro div_upper) simp_all
  have R: "ord2ymd n0 = (if ?d = 4 \<or> ?b = 4 then (?a * 400 + 1 + (?b * 100 + ?c * 4 + ?d) - 1, 12, 31)
               else ord2ymd_month (?a * 400 + 1 + (?b * 100 + ?c * 4 + ?d))
                      (?d = 3 \<and> (?c \<noteq> 24 \<or> ?b = 3)) ?r4)"
    unfolding ord2ymd_def DI_values Let_def by (rule refl)
  show ?thesis
    by (rule ord2ymd_core [OF n r1 r2 r3 a0 r1b r2b r3b r4b b c d R])
qed

lemma days_before_year_Suc:
  "days_before_year (y + 1) = days_before_year y + (if is_leap y then 366 else 365)"
proof -
  define a where "a = (y - 1) div 400"
  define r where "r = (y - 1) mod 400"
  define b where "b = r div 100"
  define r' where "r' = r mod 100"
  define c where "c = r' div 4"
  define d where "d = r' mod 4"
  have rb: "0 \<le> r" "r < 400" unfolding r_def
    by (rule pos_mod_sign, simp) (rule pos_mod_bound, simp)
  have r'b: "0 \<le> r'" "r' < 100" unfolding r'_def
    by (rule pos_mod_sign, simp) (rule pos_mod_bound, simp)
  have db: "0 \<le> d" "d < 4" unfolding d_def
    by (rule pos_mod_sign, simp) (rule pos_mod_bound, simp)
  have b: "0 \<le> b" "b \<le> 3" unfolding b_def
    using rb(1) apply (rule pos_imp_zdiv_nonneg_iff [THEN iffD2, rotated]) apply simp
    using rb(2) by (intro div_upper) simp_all
  have c: "0 \<le> c" "c \<le> 24" unfolding c_def
    using r'b(1) apply (rule pos_imp_zdiv_nonneg_iff [THEN iffD2, rotated]) apply simp
    using r'b(2) by (intro div_upper) simp_all
  have e1: "y - 1 = 400 * a + r" unfolding a_def r_def by (rule mult_div_mod_eq [symmetric])
  have e2: "r = 100 * b + r'" unfolding b_def r'_def by (rule mult_div_mod_eq [symmetric])
  have e3: "r' = 4 * c + d" unfolding c_def d_def by (rule mult_div_mod_eq [symmetric])
  have y: "y = 400 * a + 100 * b + 4 * c + d + 1" using e1 e2 e3 by linarith
  have d3: "d \<le> 3" using db by linarith
  have dby: "days_before_year y = 146097 * a + 36524 * b + 1461 * c + 365 * d"
    unfolding y using days_before_year_decomp [of b c d a] b c db d3 by simp
  have leap: "is_leap y \<longleftrightarrow> d = 3 \<and> (c \<noteq> 24 \<or> b = 3)"
    unfolding y using is_leap_decomp [of b c d a] b c db d3 by simp
  show ?thesis
  proof (cases "d = 3")
    case False
    then have "d + 1 \<le> 3" using d3 by linarith
    then have "days_before_year (400 * a + 100 * b + 4 * c + (d + 1) + 1) =
         146097 * a + 36524 * b + 1461 * c + 365 * (d + 1)"
      using days_before_year_decomp [of b c "d + 1" a] b c db by simp
    moreover have "y + 1 = 400 * a + 100 * b + 4 * c + (d + 1) + 1" using y by simp
    ultimately show ?thesis using dby leap False by simp
  next
    case d3: True
    show ?thesis
    proof (cases "c = 24")
      case False
      then have "c + 1 \<le> 24" using c by linarith
      then have "days_before_year (400 * a + 100 * b + 4 * (c + 1) + 0 + 1) =
         146097 * a + 36524 * b + 1461 * (c + 1) + 365 * 0"
        using days_before_year_decomp [of b "c + 1" 0 a] b c by simp
      moreover have "y + 1 = 400 * a + 100 * b + 4 * (c + 1) + 0 + 1" using y d3 by simp
      ultimately show ?thesis using dby leap False d3 by simp
    next
      case c24: True
      show ?thesis
      proof (cases "b = 3")
        case False
        then have "b + 1 \<le> 3" using b by linarith
        then have "days_before_year (400 * a + 100 * (b + 1) + 4 * 0 + 0 + 1) =
           146097 * a + 36524 * (b + 1) + 1461 * 0 + 365 * 0"
          using days_before_year_decomp [of "b + 1" 0 0 a] b by simp
        moreover have "y + 1 = 400 * a + 100 * (b + 1) + 4 * 0 + 0 + 1" using y d3 c24 by simp
        ultimately show ?thesis using dby leap False d3 c24 by simp
      next
        case True
        have "days_before_year (400 * (a + 1) + 100 * 0 + 4 * 0 + 0 + 1) =
           146097 * (a + 1) + 36524 * 0 + 1461 * 0 + 365 * 0"
          using days_before_year_decomp [of 0 0 0 "a + 1"] by simp
        moreover have "y + 1 = 400 * (a + 1) + 100 * 0 + 4 * 0 + 0 + 1"
          using y d3 c24 True by simp
        ultimately show ?thesis using dby leap True d3 c24 by simp
      qed
    qed
  qed
qed

lemma days_before_year_mono: "y \<le> z \<Longrightarrow> days_before_year y \<le> days_before_year z"
proof (induction z rule: int_ge_induct)
  case base
  show ?case by simp
next
  case (step i)
  then show ?case using days_before_year_Suc [of i] by (simp split: if_splits)
qed

lemma days_before_year_values: "days_before_year 1 = 0" "days_before_year 10000 = 3652059"
  by (simp_all add: days_before_year_def)

lemma datetime_new_valid:
  assumes "valid_datetime \<lparr>year = y, month = m, day = d, hour = hh, minute = mm, second = ss,
      microsecond = us\<rparr>"
  shows "datetime_new y m d hh mm ss us =
    Inr \<lparr>year = y, month = m, day = d, hour = hh, minute = mm, second = ss, microsecond = us\<rparr>"
  using assms by (simp add: datetime_new_def valid_datetime_def valid_date_def)

lemma datetime_new_InrD:
  assumes "datetime_new y m d hh mm ss us = Inr dt"
  shows "dt = \<lparr>year = y, month = m, day = d, hour = hh, minute = mm, second = ss,
      microsecond = us\<rparr>" and "valid_datetime dt"
proof -
  from assms have a: "MINYEAR \<le> y \<and> y \<le> MAXYEAR" 
    by (simp add: datetime_new_def split: if_splits)
  from assms a have b: "1 \<le> m \<and> m \<le> 12"
    by (simp add: datetime_new_def split: if_splits)
  from assms a b have c: "1 \<le> d \<and> d \<le> days_in_month y m"
    by (simp add: datetime_new_def split: if_splits)
  from assms a b c have d: "0 \<le> hh \<and> hh \<le> 23"
    by (simp add: datetime_new_def split: if_splits)
  from assms a b c d have e: "0 \<le> mm \<and> mm \<le> 59"
    by (simp add: datetime_new_def split: if_splits)
  from assms a b c d e have f: "0 \<le> ss \<and> ss \<le> 59"
    by (simp add: datetime_new_def split: if_splits)
  from assms a b c d e f have g: "0 \<le> us \<and> us \<le> 999999"
    by (simp add: datetime_new_def split: if_splits)
  from assms a b c d e f g show "dt = \<lparr>year = y, month = m, day = d, hour = hh, minute = mm,
      second = ss, microsecond = us\<rparr>"
    by (simp add: datetime_new_def)
  with a b c d e f g show "valid_datetime dt"
    by (simp add: valid_datetime_def valid_date_def)
qed

lemma datetime_new_date_error:
  assumes "\<not> valid_date y m d"
  shows "\<exists>msg. datetime_new y m d hh mm ss us = Inl (ValueError msg)"
  using assms by (simp add: datetime_new_def valid_date_def)

lemma month_len_bound:
  assumes "1 \<le> m" "m \<le> 12"
  shows "days_before_month y m + days_in_month y m \<le> (if is_leap y then 366 else 365)"
    and "0 \<le> days_before_month y m"
  using int_1_12_cases [OF assms]
  by (auto simp: days_before_month_def days_in_month_def DAYS_BEFORE_MONTH_def DAYS_IN_MONTH_def)

lemma ymd2ord_bounds:
  assumes "valid_date y m d"
  shows "1 \<le> ymd2ord y m d" and "ymd2ord y m d \<le> MAXORDINAL"
proof -
  from assms have y: "1 \<le> y" "y \<le> 9999" and m: "1 \<le> m" "m \<le> 12"
    and d: "1 \<le> d" "d \<le> days_in_month y m"
    by (simp_all add: valid_date_def MINYEAR_def MAXYEAR_def)
  have "0 \<le> days_before_year y"
    using days_before_year_mono [OF y(1)] by (simp add: days_before_year_values)
  with month_len_bound(2) [OF m, of y] d(1) show "1 \<le> ymd2ord y m d"
    by (simp add: ymd2ord_def)
  have "ymd2ord y m d \<le> days_before_year y + (if is_leap y then 366 else 365)"
    using month_len_bound(1) [OF m, of y] d(2) by (simp add: ymd2ord_def split: if_splits)
  also have "\<dots> = days_before_year (y + 1)" by (simp add: days_before_year_Suc)
  also have "\<dots> \<le> days_before_year 10000"
    using y(2) by (intro days_before_year_mono) simp
  finally show "ymd2ord y m d \<le> MAXORDINAL"
    by (simp add: days_before_year_values MAXORDINAL_def)
qed

lemma fromordinal_valid:
  assumes "1 \<le> n" "n \<le> MAXORDINAL"
  shows "\<exists>y m d. ord2ymd n = (y, m, d) \<and> ymd2ord y m d = n \<and> valid_date y m d"
proof -
  from ord2ymd_correct [OF assms(1)] obtain y m d where
    r: "ord2ymd n = (y, m, d)" "ymd2ord y m d = n" "1 \<le> y" "1 \<le> m" "m \<le> 12" "1 \<le> d"
      "d \<le> days_in_month y m" "days_before_year y < n" by blast
  have "y \<le> 9999"
  proof (rule ccontr)
    assume "\<not> y \<le> 9999"
    then have "10000 \<le> y" by simp
    from days_before_year_mono [OF this] r(8) assms(2) show False
      by (simp add: days_before_year_values MAXORDINAL_def)
  qed
  with r show ?thesis by (simp add: valid_date_def MINYEAR_def MAXYEAR_def)
qed

lemma timedelta_new_normal:
  "0 \<le> s \<Longrightarrow> s < 86400 \<Longrightarrow> 0 \<le> us \<Longrightarrow> us < 1000000 \<Longrightarrow>
   timedelta_new d s us = \<lparr>days = d, seconds = s, microseconds = us\<rparr>"
  by (simp add: timedelta_new_def Let_def div_pos_pos_trivial mod_pos_pos_trivial)

lemma hms_split:
  fixes hh mm ss :: int
  assumes "0 \<le> mm" "mm \<le> 59" "0 \<le> ss" "ss \<le> 59"
  shows "(hh * 3600 + mm * 60 + ss) div 3600 = hh"
    and "(hh * 3600 + mm * 60 + ss) mod 3600 div 60 = mm"
    and "(hh * 3600 + mm * 60 + ss) mod 3600 mod 60 = ss"
proof -
  have a: "hh * 3600 + mm * 60 + ss = 3600 * hh + (60 * mm + ss)" by simp
  have b: "0 \<le> 60 * mm + ss" "60 * mm + ss < 3600" using assms by linarith+
  show "(hh * 3600 + mm * 60 + ss) div 3600 = hh"
    unfolding a by (rule div_decomp [OF b])
  have c: "(hh * 3600 + mm * 60 + ss) mod 3600 = 60 * mm + ss"
    unfolding a by (rule mod_decomp [OF b])
  have d: "0 \<le> ss" "ss < 60" using assms by linarith+
  show "(hh * 3600 + mm * 60 + ss) mod 3600 div 60 = mm"
    unfolding c by (rule div_decomp [OF d])
  show "(hh * 3600 + mm * 60 + ss) mod 3600 mod 60 = ss"
    unfolding c by (rule mod_decomp [OF d])
qed

lemma datetime_add_days:
  assumes v: "valid_datetime dt" and k: "0 \<le> k" "toordinal dt + k \<le> MAXORDINAL"
  shows "\<exists>dt'. datetime_add dt (timedelta_new k 0 0) = Inr dt' \<and> valid_datetime dt'
           \<and> toordinal dt' = toordinal dt + k
           \<and> hour dt' = hour dt \<and> minute dt' = minute dt \<and> second dt' = second dt
           \<and> microsecond dt' = microsecond dt"
proof -
  from v have t: "0 \<le> hour dt" "hour dt \<le> 23" "0 \<le> minute dt" "minute dt \<le> 59"
    "0 \<le> second dt" "second dt \<le> 59" "0 \<le> microsecond dt" "microsecond dt \<le> 999999"
    and vd: "valid_date (year dt) (month dt) (day dt)"
    by (simp_all add: valid_datetime_def)
  define s where "s = hour dt * 3600 + minute dt * 60 + second dt"
  have sb: "0 \<le> s" "s < 86400" unfolding s_def using t by linarith+
  have us: "microsecond dt < 1000000" using t by linarith
  have o1: "1 \<le> toordinal dt" using ymd2ord_bounds(1) [OF vd] by (simp add: toordinal_def)
  have d1: "timedelta_new (toordinal dt) s (microsecond dt) =
      \<lparr>days = toordinal dt, seconds = s, microseconds = microsecond dt\<rparr>"
    by (rule timedelta_new_normal [OF sb t(7) us])
  have d2: "timedelta_new k 0 0 = \<lparr>days = k, seconds = 0, microseconds = 0\<rparr>"
    by (rule timedelta_new_normal) simp_all
  have d3: "timedelta_add (timedelta_new (toordinal dt) s (microsecond dt)) (timedelta_new k 0 0)
      = \<lparr>days = toordinal dt + k, seconds = s, microseconds = microsecond dt\<rparr>"
    unfolding d1 d2 timedelta_add_def
    using timedelta_new_normal [OF sb t(7) us, of "toordinal dt + k"] by simp
  have rng: "1 \<le> toordinal dt + k" using o1 k by linarith
  from fromordinal_valid [OF rng k(2)] obtain y m d where
    r: "ord2ymd (toordinal dt + k) = (y, m, d)" "ymd2ord y m d = toordinal dt + k"
      "valid_date y m d" by blast
  define dt' where "dt' = \<lparr>year = y, month = m, day = d, hour = hour dt, minute = minute dt,
      second = second dt, microsecond = microsecond dt\<rparr>"
  have hms: "s div 3600 = hour dt" "s mod 3600 div 60 = minute dt" "s mod 3600 mod 60 = second dt"
    unfolding s_def using hms_split [OF t(3,4,5,6)] by simp_all
  have "datetime_add dt (timedelta_new k 0 0) = Inr dt'"
    unfolding datetime_add_def s_def [symmetric] d3 Let_def dt'_def
    using rng k(2) r(1) hms by simp
  moreover have "valid_datetime dt'" using r(3) t by (simp add: valid_datetime_def dt'_def)
  moreover have "toordinal dt' = toordinal dt + k" using r(2) by (simp add: toordinal_def dt'_def)
  ultimately show ?thesis by (auto simp: dt'_def)
qed

lemma saturday_arith:
  fixes n :: int
  assumes "(n + 6) mod 7 = 5" "n \<le> 3652059"
  shows "n + 2 \<le> 3652059" "(n + 2 + 6) mod 7 = 0"
  using assms by presburger+

lemma sunday_arith:
  fixes n :: int
  assumes "(n + 6) mod 7 = 6" "n \<le> 3652059"
  shows "n + 1 \<le> 3652059" "(n + 1 + 6) mod 7 = 0"
  using assms by presburger+

lemma replace_year_InrD:
  assumes "replace_year dt y = Inr dt'"
  shows "valid_datetime dt'" "dt' = dt\<lparr>year := y\<rparr>"
  using datetime_new_InrD [OF assms [unfolded replace_year_def]] by simp_all

lemma roll_forward_valid:
  assumes "project_year today bd = Inr p" "roll_forward today p = Inr cand"
  shows "valid_datetime cand"
proof -
  have vp: "valid_datetime p"
    using assms(1) unfolding project_year_def by (rule replace_year_InrD(1))
  show ?thesis
  proof (cases "datetime_lt p today")
    case True
    with assms(2) have "replace_year p (year today + 1) = Inr cand"
      by (simp add: roll_forward_def)
    then show ?thesis by (rule replace_year_InrD(1))
  next
    case False
    with assms(2) vp show ?thesis by (simp add: roll_forward_def)
  qed
qed

lemma weekend_shift_valid:
  assumes v: "valid_datetime c"
  shows "\<exists>r. weekend_shift c = Inr r \<and> valid_datetime r
      \<and> toordinal r = toordinal c + (if weekday c = 5 then 2 else if weekday c = 6 then 1 else 0)
      \<and> (weekday c \<noteq> 5 \<and> weekday c \<noteq> 6 \<longrightarrow> r = c)
      \<and> (weekday c = 5 \<or> weekday c = 6 \<longrightarrow> weekday r = 0)
      \<and> hour r = hour c \<and> minute r = minute c \<and> second r = second c
      \<and> microsecond r = microsecond c"
proof -
  from v have vd: "valid_date (year c) (month c) (day c)" by (simp add: valid_datetime_def)
  have ub: "toordinal c \<le> 3652059"
    using ymd2ord_bounds(2) [OF vd] by (simp add: toordinal_def MAXORDINAL_def)
  consider (sat) "weekday c = 5" | (sun) "weekday c = 6" | (other) "weekday c \<noteq> 5" "weekday c \<noteq> 6"
    by blast
  then show ?thesis
  proof cases
    case sat
    then have w: "(toordinal c + 6) mod 7 = 5" by (simp add: weekday_def)
    from saturday_arith [OF w ub] have k: "toordinal c + 2 \<le> MAXORDINAL"
      and m: "(toordinal c + 2 + 6) mod 7 = 0" by (simp_all add: MAXORDINAL_def)
    from datetime_add_days [OF v _ k] obtain r where
      r: "datetime_add c (timedelta_new 2 0 0) = Inr r" "valid_datetime r"
        "toordinal r = toordinal c + 2" "hour r = hour c" "minute r = minute c"
        "second r = second c" "microsecond r = microsecond c" by auto
    have "weekday r = 0" using r(3) m by (simp add: weekday_def)
    with sat r show ?thesis by (simp add: weekend_shift_def)
  next
    case sun
    then have w: "(toordinal c + 6) mod 7 = 6" by (simp add: weekday_def)
    from sunday_arith [OF w ub] have k: "toordinal c + 1 \<le> MAXORDINAL"
      and m: "(toordinal c + 1 + 6) mod 7 = 0" by (simp_all add: MAXORDINAL_def)
    from datetime_add_days [OF v _ k] obtain r where
      r: "datetime_add c (timedelta_new 1 0 0) = Inr r" "valid_datetime r"
        "toordinal r = toordinal c + 1" "hour r = hour c" "minute r = minute c"
        "second r = second c" "microsecond r = microsecond c" by auto
    have "weekday r = 0" using r(3) m by (simp add: weekday_def)
    with sun r show ?thesis by (simp add: weekend_shift_def)
  next
    case other
    with v show ?thesis by (simp add: weekend_shift_def)
  qed
qed

text \<open>The equations that evaluate the calendar on concrete dates.\<close>

lemmas calendar_eval =
  weekday_def toordinal_def midnight_def ymd2ord_def days_before_year_def
  days_before_month_def days_in_month_def DAYS_BEFORE_MONTH_def DAYS_IN_MONTH_def is_leap_def
  MAXORDINAL_def MINYEAR_def MAXYEAR_def ord2ymd_def ord2ymd_month_def DI400Y_def DI100Y_def
  DI4Y_def datetime_add_def datetime_sub_def timedelta_add_def timedelta_new_def
  datetime_new_def replace_year_def datetime_lt_def valid_datetime_def valid_date_def Let_def

section \<open>The weekend shift\<close>

text \<open>
  C2: once the rollover has decided the candidate date, the adjusted date of
  \<open>get_upcoming_birthdays\<close> is the weekend shift of that candidate and nothing else: two
  days later when the candidate is a Saturday, one day later when it is a Sunday, the
  candidate itself otherwise. The shift cannot fail, and the rollover test is not made
  again on its result.
\<close>

theorem weekend_shift_once:
  assumes "project_year today birthday_date = Inr projected"
    and "roll_forward today projected = Inr candidate"
  shows "\<exists>adjusted. adjusted_birthday today birthday_date = Inr adjusted
      \<and> weekend_shift candidate = Inr adjusted
      \<and> (weekday candidate = 5 \<longrightarrow> toordinal adjusted = toordinal candidate + 2)
      \<and> (weekday candidate = 6 \<longrightarrow> toordinal adjusted = toordinal candidate + 1)
      \<and> (weekday candidate \<noteq> 5 \<and> weekday candidate \<noteq> 6 \<longrightarrow> adjusted = candidate)
      \<and> valid_datetime adjusted
      \<and> hour adjusted = hour candidate \<and> minute adjusted = minute candidate
      \<and> second adjusted = second candidate \<and> microsecond adjusted = microsecond candidate"
proof -
  from weekend_shift_valid [OF roll_forward_valid [OF assms]] obtain r where
    r: "weekend_shift candidate = Inr r" "valid_datetime r"
      "toordinal r = toordinal candidate +
         (if weekday candidate = 5 then 2 else if weekday candidate = 6 then 1 else 0)"
      "weekday candidate \<noteq> 5 \<and> weekday candidate \<noteq> 6 \<longrightarrow> r = candidate"
      "hour r = hour candidate" "minute r = minute candidate" "second r = second candidate"
      "microsecond r = microsecond candidate" by blast
  have "adjusted_birthday today birthday_date = Inr r"
    using assms r(1) by (simp add: adjusted_birthday_def)
  with r show ?thesis by simp
qed

theorem weekend_shift_once_witness:
  "project_year ((midnight 2024 6 10)\<lparr>hour := 12\<rparr>) (midnight 1990 6 15) = Inr (midnight 2024 6 15)
   \<and> roll_forward ((midnight 2024 6 10)\<lparr>hour := 12\<rparr>) (midnight 2024 6 15) = Inr (midnight 2024 6 15)
   \<and> weekday (midnight 2024 6 15) = 5
   \<and> adjusted_birthday ((midnight 2024 6 10)\<lparr>hour := 12\<rparr>) (midnight 1990 6 15)
       = Inr (midnight 2024 6 17)
   \<and> toordinal (midnight 2024 6 17) = toordinal (midnight 2024 6 15) + 2"
proof -
  let ?today = "(midnight 2024 6 10)\<lparr>hour := 12\<rparr>"
  have p: "project_year ?today (midnight 1990 6 15) = Inr (midnight 2024 6 15)"
    by (simp add: project_year_def calendar_eval)
  have c: "roll_forward ?today (midnight 2024 6 15) = Inr (midnight 2024 6 15)"
    by (simp add: roll_forward_def calendar_eval)
  have w: "weekday (midnight 2024 6 15) = 5" by (simp add: calendar_eval)
  have s: "weekend_shift (midnight 2024 6 15) = Inr (midnight 2024 6 17)"
    by (simp add: weekend_shift_def w) (simp add: calendar_eval)
  from weekend_shift_once [OF p c] s w
  have "adjusted_birthday ?today (midnight 1990 6 15) = Inr (midnight 2024 6 17)
    \<and> toordinal (midnight 2024 6 17) = toordinal (midnight 2024 6 15) + 2"
    by auto
  with p c w show ?thesis by simp
qed

section \<open>The rollover to next year\<close>

text \<open>The equations that evaluate \<open>strptime\<close> on ASCII text.\<close>

lemmas strptime_eval =
  strptime_def format_regex_match_def re_d_def re_m_def in_class_def py_int_def
  isdecimal_char_def decimal_value_low ascii_def

lemma strptime_SomeD:
  assumes "strptime s = Some dt"
  shows "valid_datetime dt" "is_midnight dt"
proof -
  from assms obtain yy mm dd where "datetime_new yy mm dd 0 0 0 0 = Inr dt"
    by (auto simp: strptime_def split: option.splits prod.splits if_splits sum.splits)
  from datetime_new_InrD [OF this] show "valid_datetime dt" "is_midnight dt"
    by (simp_all add: is_midnight_def)
qed





section \<open>The loop over the records\<close>

lemma loop_body_acc:
  "loop_body today r acc =
     (case loop_body today r [] of Inl e \<Rightarrow> Inl e | Inr xs \<Rightarrow> Inr (acc @ xs))"
  by (simp add: loop_body_def Let_def split: option.splits sum.splits)

lemma upcoming_loop_Inr:
  assumes "upcoming_loop today rs acc = Inr res"
  shows "\<exists>slots. res = acc @ concat slots
      \<and> list_all2 (\<lambda>r slot. loop_body today r [] = Inr slot) rs slots"
  using assms
proof (induction rs arbitrary: acc)
  case Nil
  then show ?case by simp
next
  case (Cons r rs)
  from Cons.prems obtain xs where b: "loop_body today r [] = Inr xs"
    and l: "upcoming_loop today rs (acc @ xs) = Inr res"
    by (subst (asm) upcoming_loop.simps, subst (asm) loop_body_acc)
       (auto split: sum.splits)
  from Cons.IH [OF l] obtain slots where "res = (acc @ xs) @ concat slots"
    "list_all2 (\<lambda>r slot. loop_body today r [] = Inr slot) rs slots" by blast
  with b have "res = acc @ concat (xs # slots)
    \<and> list_all2 (\<lambda>r slot. loop_body today r [] = Inr slot) (r # rs) (xs # slots)" by simp
  then show ?case by blast
qed

lemma upcoming_loop_Inl:
  assumes "r \<in> set rs" "\<And>acc. \<exists>e. loop_body today r acc = Inl e"
  shows "\<exists>e. upcoming_loop today rs acc = Inl e"
  using assms(1)
proof (induction rs arbitrary: acc)
  case Nil
  then show ?case by simp
next
  case (Cons x rs)
  show ?case
  proof (cases "loop_body today x acc")
    case (Inl e)
    then show ?thesis by simp
  next
    case (Inr acc')
    with Cons.prems assms(2) [of acc] have "r \<in> set rs" by auto
    from Cons.IH [OF this] Inr show ?thesis by simp
  qed
qed

section \<open>A birthday on 29 February\<close>

lemma feb29_not_valid: "\<not> is_leap y \<Longrightarrow> \<not> valid_date y 2 29"
  by (simp add: valid_date_def days_in_month_def DAYS_IN_MONTH_def)

lemma project_feb29:
  assumes "valid_datetime today" "\<not> is_leap (year today)" "valid_datetime bd"
    "month bd = 2" "day bd = 29"
  shows "project_year today bd = Inl (ValueError (ascii ''day is out of range for month''))"
proof -
  from assms(1) have "MINYEAR \<le> year today" "year today \<le> MAXYEAR"
    by (simp_all add: valid_datetime_def valid_date_def)
  with assms(2,4,5) show ?thesis
    by (simp add: project_year_def replace_year_def datetime_new_def days_in_month_def
        DAYS_IN_MONTH_def)
qed

text \<open>
  C9: when a record of the book has a birthday text that parses to a 29 February and the
  current year is not a leap year, the projection onto the current year raises
  \<open>ValueError\<close>; it is outside the \<open>try\<close>, so the body of the loop raises for that record and
  \<open>get_upcoming_birthdays\<close> raises instead of returning a list.
\<close>

theorem leap_day_birthday_raises:
  assumes "valid_datetime today" and "\<not> is_leap (year today)"
    and "(k, r) \<in> set book" and "birthday_value (birthday r) = Some s"
    and "strptime s = Some birthday_date"
    and "month birthday_date = 2" and "day birthday_date = 29"
  shows "project_year today birthday_date =
           Inl (ValueError (ascii ''day is out of range for month''))
     \<and> (\<forall>acc. loop_body today r acc = Inl (ValueError (ascii ''day is out of range for month'')))
     \<and> (\<exists>e. get_upcoming_birthdays today book = Inl e)"
proof -
  from strptime_SomeD(1) [OF assms(5)] have vb: "valid_datetime birthday_date" .
  have p: "project_year today birthday_date =
           Inl (ValueError (ascii ''day is out of range for month''))"
    by (rule project_feb29 [OF assms(1,2) vb assms(6,7)])
  have ne: "s \<noteq> []" using assms(5) by (auto simp: strptime_def format_regex_match_def re_d_def)
  have b: "loop_body today r acc = Inl (ValueError (ascii ''day is out of range for month''))"
    for acc
    using assms(4,5) p ne
    by (simp add: loop_body_def Birthday_truthy_def value_truthy_def adjusted_birthday_def)
  have "r \<in> set (map snd book)" using assms(3) by force
  from upcoming_loop_Inl [OF this] b
  have "\<exists>e. get_upcoming_birthdays today book = Inl e"
    unfolding get_upcoming_birthdays_def by blast
  with p b show ?thesis by blast
qed

theorem leap_day_birthday_raises_witness:
  "get_upcoming_birthdays ((midnight 2023 3 1)\<lparr>hour := 9\<rparr>)
     [(ascii ''Ann'', (Record_init (ascii ''Ann''))\<lparr>birthday := Birthday (Some (ascii ''29.02.2000''))\<rparr>)]
   = Inl (ValueError (ascii ''day is out of range for month''))"
proof -
  let ?today = "(midnight 2023 3 1)\<lparr>hour := 9\<rparr>"
  let ?r = "(Record_init (ascii ''Ann''))\<lparr>birthday := Birthday (Some (ascii ''29.02.2000''))\<rparr>"
  have v: "valid_datetime ?today" by (simp add: calendar_eval)
  have l: "\<not> is_leap (year ?today)" by (simp add: calendar_eval)
  have m: "(ascii ''Ann'', ?r) \<in> set [(ascii ''Ann'', ?r)]" by simp
  have bv: "birthday_value (birthday ?r) = Some (ascii ''29.02.2000'')" by simp
  have s: "strptime (ascii ''29.02.2000'') = Some (midnight 2000 2 29)"
    by (simp add: strptime_eval calendar_eval)
  have md: "month (midnight 2000 2 29) = 2" "day (midnight 2000 2 29) = 29"
    by (simp_all add: midnight_def)
  from leap_day_birthday_raises [OF v l m bv s md]
  have "loop_body ?today ?r [] = Inl (ValueError (ascii ''day is out of range for month''))"
    by blast
  then show ?thesis by (simp add: get_upcoming_birthdays_def)
qed

section \<open>The upcoming birthdays\<close>

lemma div_minus_one:
  fixes x k :: int
  assumes "- k \<le> x" "x < 0"
  shows "x div k = - 1"
proof -
  have "0 \<le> x + k" "x + k < k" using assms by linarith+
  from div_decomp [OF this, of "- 1"] show ?thesis by simp
qed

lemma days_until_midnight:
  assumes a: "is_midnight adj" and t: "valid_datetime today"
  shows "days (datetime_sub adj today) =
           toordinal adj - toordinal today - (if is_midnight today then 0 else 1)"
proof -
  from t have tb: "0 \<le> hour today" "hour today \<le> 23" "0 \<le> minute today" "minute today \<le> 59"
    "0 \<le> second today" "second today \<le> 59" "0 \<le> microsecond today"
    "microsecond today \<le> 999999" by (simp_all add: valid_datetime_def)
  define secs where "secs = second today + minute today * 60 + hour today * 3600"
  define us where "us = microsecond today"
  have sb: "0 \<le> secs" "secs < 86400" unfolding secs_def using tb by linarith+
  have ub: "0 \<le> us" "us < 1000000" unfolding us_def using tb by linarith+
  have mid: "is_midnight today \<longleftrightarrow> secs = 0 \<and> us = 0"
    unfolding is_midnight_def secs_def us_def using tb by linarith
  have sub: "datetime_sub adj today =
      timedelta_new (toordinal adj - toordinal today) (- secs) (- us)"
    using a by (simp add: datetime_sub_def is_midnight_def secs_def us_def Let_def)
  have carry: "(- us) div 1000000 = (if us = 0 then 0 else - 1)"
    using ub div_minus_one [of 1000000 "- us"] by simp
  define s1 where "s1 = - secs + (- us) div 1000000"
  have s1b: "- 86400 \<le> s1" "s1 \<le> 0" and s10: "s1 = 0 \<longleftrightarrow> secs = 0 \<and> us = 0"
    unfolding s1_def carry using sb by (auto split: if_splits)
  have "s1 div 86400 = (if s1 = 0 then 0 else - 1)"
    using s1b div_minus_one [of 86400 s1] by simp
  then have "days (timedelta_new (toordinal adj - toordinal today) (- secs) (- us)) =
      toordinal adj - toordinal today + (if secs = 0 \<and> us = 0 then 0 else - 1)"
    unfolding timedelta_new_def Let_def s1_def [symmetric] using s10 by simp
  then show ?thesis unfolding sub mid by simp
qed

lemma strptime_Nil: "strptime [] = None"
  by (simp add: strptime_def format_regex_match_def re_d_def)

lemma adjusted_birthday_InrD:
  assumes "strptime s = Some bd" "adjusted_birthday today bd = Inr adj"
  shows "is_midnight adj" "valid_datetime adj"
proof -
  from assms(2) obtain p cand where p: "project_year today bd = Inr p"
    and c: "roll_forward today p = Inr cand" and w: "weekend_shift cand = Inr adj"
    by (auto simp: adjusted_birthday_def split: sum.splits)
  from strptime_SomeD(2) [OF assms(1)] replace_year_InrD(2) [OF p [unfolded project_year_def]]
  have mp: "is_midnight p" by (simp add: is_midnight_def)
  have mc: "is_midnight cand"
  proof (cases "datetime_lt p today")
    case True
    with c have "replace_year p (year today + 1) = Inr cand" by (simp add: roll_forward_def)
    from replace_year_InrD(2) [OF this] mp show ?thesis by (simp add: is_midnight_def)
  next
    case False
    with c mp show ?thesis by (simp add: roll_forward_def)
  qed
  from weekend_shift_valid [OF roll_forward_valid [OF p c]] w mc
  show "is_midnight adj" "valid_datetime adj" by (auto simp: is_midnight_def)
qed

lemma loop_body_slot:
  assumes v: "valid_datetime today" and b: "loop_body today r [] = Inr slot"
  shows "case birthday_value (birthday r) of
           None \<Rightarrow> slot = []
         | Some s \<Rightarrow>
             (case strptime s of
                None \<Rightarrow> slot = []
              | Some bd \<Rightarrow>
                  (\<exists>adj. adjusted_birthday today bd = Inr adj \<and> is_midnight adj
                     \<and> days (datetime_sub adj today) =
                         toordinal adj - toordinal today - (if is_midnight today then 0 else 1)
                     \<and> slot =
                         (if 0 \<le> days (datetime_sub adj today) \<and> days (datetime_sub adj today) \<le> 7
                          then [[(ascii ''name'', name_value (name r)),
                                 (ascii ''birthday'', strftime adj)]]
                          else [])))"
proof (cases "birthday_value (birthday r)")
  case None
  with b show ?thesis by (simp add: loop_body_def value_truthy_def)
next
  case (Some s)
  show ?thesis
  proof (cases "strptime s")
    case None
    with Some b show ?thesis
      by (simp add: loop_body_def value_truthy_def split: if_splits)
  next
    case bd: (Some bd)
    then have ne: "s \<noteq> []" using strptime_Nil by auto
    from b Some bd ne obtain adj where adj: "adjusted_birthday today bd = Inr adj"
      by (cases "adjusted_birthday today bd")
         (simp_all add: loop_body_def value_truthy_def Birthday_truthy_def)
    from adjusted_birthday_InrD [OF bd adj] have m: "is_midnight adj" by simp
    from b Some bd ne adj have "slot =
        (if 0 \<le> days (datetime_sub adj today) \<and> days (datetime_sub adj today) \<le> 7
         then [[(ascii ''name'', name_value (name r)), (ascii ''birthday'', strftime adj)]]
         else [])"
      by (simp add: loop_body_def value_truthy_def Birthday_truthy_def Let_def split: if_splits)
    with adj m days_until_midnight [OF m v] Some bd show ?thesis by simp
  qed
qed

lemma replace_year_valid:
  assumes "valid_datetime dt" "valid_date y (month dt) (day dt)"
  shows "replace_year dt y = Inr (dt\<lparr>year := y\<rparr>)"
proof -
  have "valid_datetime \<lparr>year = y, month = month dt, day = day dt, hour = hour dt,
      minute = minute dt, second = second dt, microsecond = microsecond dt\<rparr>"
    using assms by (simp add: valid_datetime_def)
  from datetime_new_valid [OF this] show ?thesis by (simp add: replace_year_def)
qed

lemma adjusted_birthday_returns:
  assumes "valid_datetime bd" and "valid_date (year today) (month bd) (day bd)"
    and "valid_date (year today + 1) (month bd) (day bd)"
  shows "\<exists>adj. adjusted_birthday today bd = Inr adj"
proof -
  define p where "p = bd\<lparr>year := year today\<rparr>"
  have pr: "project_year today bd = Inr p"
    unfolding project_year_def p_def by (rule replace_year_valid [OF assms(1,2)])
  have vp: "valid_datetime p" using assms(1,2) by (simp add: p_def valid_datetime_def)
  have "\<exists>cand. roll_forward today p = Inr cand"
  proof (cases "datetime_lt p today")
    case True
    have "valid_date (year today + 1) (month p) (day p)" using assms(3) by (simp add: p_def)
    from replace_year_valid [OF vp this] True show ?thesis by (simp add: roll_forward_def)
  next
    case False
    then show ?thesis by (simp add: roll_forward_def)
  qed
  then obtain cand where c: "roll_forward today p = Inr cand" by blast
  from weekend_shift_valid [OF roll_forward_valid [OF pr c]]
  obtain adj where "weekend_shift cand = Inr adj" by blast
  with pr c show ?thesis by (simp add: adjusted_birthday_def)
qed

lemma loop_body_returns:
  assumes "\<And>s bd. birthday_value (birthday r) = Some s \<Longrightarrow> strptime s = Some bd \<Longrightarrow>
             \<exists>adj. adjusted_birthday today bd = Inr adj"
  shows "\<exists>slot. loop_body today r [] = Inr slot"
proof (cases "birthday_value (birthday r)")
  case None
  then show ?thesis by (simp add: loop_body_def value_truthy_def)
next
  case (Some s)
  show ?thesis
  proof (cases "strptime s")
    case None
    with Some show ?thesis by (simp add: loop_body_def value_truthy_def)
  next
    case bd: (Some bd)
    from assms [OF Some bd] obtain adj where "adjusted_birthday today bd = Inr adj" by blast
    with Some bd show ?thesis by (simp add: loop_body_def value_truthy_def Let_def)
  qed
qed

lemma upcoming_loop_returns:
  assumes "\<And>r. r \<in> set rs \<Longrightarrow> \<exists>slot. loop_body today r [] = Inr slot"
  shows "\<exists>res. upcoming_loop today rs acc = Inr res"
  using assms
proof (induction rs arbitrary: acc)
  case Nil
  show ?case by simp
next
  case (Cons r rs)
  from Cons.prems [of r] obtain slot where s: "loop_body today r [] = Inr slot" by auto
  have b: "loop_body today r acc = Inr (acc @ slot)"
    by (subst loop_body_acc) (simp add: s)
  from Cons.IH [of "acc @ slot"] Cons.prems
  obtain res where "upcoming_loop today rs (acc @ slot) = Inr res" by auto
  with b show ?case by simp
qed

text \<open>
  When the call returns, its result is the concatenation, in the order of the book, of one
  slot per record. The slot is empty when the record has no birthday or its text does not
  parse; otherwise it holds exactly the entry with the record's name and the adjusted date
  if \<open>0 \<le> days_until \<le> 7\<close>, and is empty if not.
\<close>

lemma upcoming_birthdays_result:
  assumes "valid_datetime today" and "get_upcoming_birthdays today book = Inr res"
  shows "\<exists>slots. res = concat slots \<and>
     list_all2 (\<lambda>(k, r) slot.
        case birthday_value (birthday r) of
           None \<Rightarrow> slot = []
         | Some s \<Rightarrow>
             (case strptime s of
                None \<Rightarrow> slot = []
              | Some bd \<Rightarrow>
                  (\<exists>adj. adjusted_birthday today bd = Inr adj \<and> is_midnight adj
                     \<and> days (datetime_sub adj today) =
                         toordinal adj - toordinal today - (if is_midnight today then 0 else 1)
                     \<and> slot =
                         (if 0 \<le> days (datetime_sub adj today) \<and> days (datetime_sub adj today) \<le> 7
                          then [[(ascii ''name'', name_value (name r)),
                                 (ascii ''birthday'', strftime adj)]]
                          else [])))) book slots"
proof -
  from upcoming_loop_Inr [OF assms(2) [unfolded get_upcoming_birthdays_def]]
  obtain slots where r: "res = concat slots"
    and l: "list_all2 (\<lambda>r slot. loop_body today r [] = Inr slot) (map snd book) slots"
    by auto
  from l have "list_all2 (\<lambda>kr slot. loop_body today (snd kr) [] = Inr slot) book slots"
    by (simp add: list_all2_map1)
  then have "list_all2 (\<lambda>kr slot.
        case birthday_value (birthday (snd kr)) of
           None \<Rightarrow> slot = []
         | Some s \<Rightarrow>
             (case strptime s of
                None \<Rightarrow> slot = []
              | Some bd \<Rightarrow>
                  (\<exists>adj. adjusted_birthday today bd = Inr adj \<and> is_midnight adj
                     \<and> days (datetime_sub adj today) =
                         toordinal adj - toordinal today - (if is_midnight today then 0 else 1)
                     \<and> slot =
                         (if 0 \<le> days (datetime_sub adj today) \<and> days (datetime_sub adj today) \<le> 7
                          then [[(ascii ''name'', name_value (name (snd kr))),
                                 (ascii ''birthday'', strftime adj)]]
                          else [])))) book slots"
    by (rule list_all2_mono) (rule loop_body_slot [OF assms(1)])
  with r show ?thesis unfolding case_prod_beta by blast
qed

text \<open>
  The raise of the year projection is the only way the call fails to return: it returns
  on every book in which each parsed birthday has its month and day in the current year
  and in the next.
\<close>

lemma upcoming_birthdays_returns:
  assumes v: "valid_datetime today"
    and d: "\<And>k r s bd. (k, r) \<in> set book \<Longrightarrow> birthday_value (birthday r) = Some s \<Longrightarrow>
               strptime s = Some bd \<Longrightarrow>
               valid_date (year today) (month bd) (day bd)
               \<and> valid_date (year today + 1) (month bd) (day bd)"
  shows "\<exists>res. get_upcoming_birthdays today book = Inr res"
proof -
  have "\<exists>slot. loop_body today r [] = Inr slot" if "r \<in> set (map snd book)" for r
  proof (rule loop_body_returns)
    fix s bd assume b: "birthday_value (birthday r) = Some s" and s: "strptime s = Some bd"
    from that obtain k where "(k, r) \<in> set book" by auto
    from d [OF this b s] strptime_SomeD(1) [OF s]
    show "\<exists>adj. adjusted_birthday today bd = Inr adj"
      by (intro adjusted_birthday_returns) simp_all
  qed
  from upcoming_loop_returns [of "map snd book" today "[]", OF this]
  show ?thesis by (simp add: get_upcoming_birthdays_def)
qed

text \<open>
  C3 says that every record whose adjusted date is within the next seven days appears in
  the result. The code loses such records when another record's projection raises: the
  \<open>try\<close> that skips a bad birthday guards the parse only, not \<open>replace(year=...)\<close>. On
  10 June 2023 at noon, with Ann born on 29.02.2000 and Bob on 12.06.1990, Bob's adjusted
  date is Monday 12 June 2023, one whole day ahead, and Bob alone is reported; with Ann
  in the book the call raises at her record and reports nobody.
\<close>

theorem upcoming_birthdays_raise_excludes:
  "get_upcoming_birthdays ((midnight 2023 6 10)\<lparr>hour := 12\<rparr>)
     [(ascii ''Ann'', (Record_init (ascii ''Ann''))\<lparr>birthday := Birthday (Some (ascii ''29.02.2000''))\<rparr>),
      (ascii ''Bob'', (Record_init (ascii ''Bob''))\<lparr>birthday := Birthday (Some (ascii ''12.06.1990''))\<rparr>)]
     = Inl (ValueError (ascii ''day is out of range for month''))
   \<and> get_upcoming_birthdays ((midnight 2023 6 10)\<lparr>hour := 12\<rparr>)
     [(ascii ''Bob'', (Record_init (ascii ''Bob''))\<lparr>birthday := Birthday (Some (ascii ''12.06.1990''))\<rparr>)]
     = Inr [[(ascii ''name'', ascii ''Bob''), (ascii ''birthday'', ascii ''12.06.2023'')]]
   \<and> strptime (ascii ''12.06.1990'') = Some (midnight 1990 6 12)
   \<and> adjusted_birthday ((midnight 2023 6 10)\<lparr>hour := 12\<rparr>) (midnight 1990 6 12)
       = Inr (midnight 2023 6 12)
   \<and> days (datetime_sub (midnight 2023 6 12) ((midnight 2023 6 10)\<lparr>hour := 12\<rparr>)) = 1"
proof -
  let ?today = "(midnight 2023 6 10)\<lparr>hour := 12\<rparr>"
  have s1: "strptime (ascii ''29.02.2000'') = Some (midnight 2000 2 29)"
    by (simp add: strptime_eval calendar_eval)
  have s2: "strptime (ascii ''12.06.1990'') = Some (midnight 1990 6 12)"
    by (simp add: strptime_eval calendar_eval)
  have p1: "project_year ?today (midnight 2000 2 29) =
      Inl (ValueError (ascii ''day is out of range for month''))"
    by (simp add: project_year_def calendar_eval)
  have ne: "ascii ''29.02.2000'' \<noteq> []" "ascii ''12.06.1990'' \<noteq> []"
    by (simp_all add: ascii_def)
  have g: "get_upcoming_birthdays ?today
     [(ascii ''Ann'', (Record_init (ascii ''Ann''))\<lparr>birthday := Birthday (Some (ascii ''29.02.2000''))\<rparr>),
      (ascii ''Bob'', (Record_init (ascii ''Bob''))\<lparr>birthday := Birthday (Some (ascii ''12.06.1990''))\<rparr>)]
     = Inl (ValueError (ascii ''day is out of range for month''))"
    using s1 p1 ne
    by (simp add: get_upcoming_birthdays_def loop_body_def Birthday_truthy_def value_truthy_def
        adjusted_birthday_def)
  have p2: "project_year ?today (midnight 1990 6 12) = Inr (midnight 2023 6 12)"
    by (simp add: project_year_def calendar_eval)
  have r2: "roll_forward ?today (midnight 2023 6 12) = Inr (midnight 2023 6 12)"
    by (simp add: roll_forward_def calendar_eval)
  have w2: "weekend_shift (midnight 2023 6 12) = Inr (midnight 2023 6 12)"
    by (simp add: weekend_shift_def calendar_eval)
  have a2: "adjusted_birthday ?today (midnight 1990 6 12) = Inr (midnight 2023 6 12)"
    by (simp add: adjusted_birthday_def p2 r2 w2)
  have d2: "days (datetime_sub (midnight 2023 6 12) ?today) = 1"
    by (simp add: calendar_eval)
  have f: "strftime (midnight 2023 6 12) = ascii ''12.06.2023''"
    by (simp add: strftime_def pad2_def str_of_int_def nat_digits.simps midnight_def ascii_def)
  have h: "get_upcoming_birthdays ?today
     [(ascii ''Bob'', (Record_init (ascii ''Bob''))\<lparr>birthday := Birthday (Some (ascii ''12.06.1990''))\<rparr>)]
     = Inr [[(ascii ''name'', ascii ''Bob''), (ascii ''birthday'', ascii ''12.06.2023'')]]"
    using ne
    by (simp add: get_upcoming_birthdays_def loop_body_def Birthday_truthy_def value_truthy_def
        Record_init_def s2 a2 d2 f)
  from g h s2 a2 d2 show ?thesis by simp
qed

section \<open>Parsing a birthday\<close>

text \<open>
  The matchers return exactly the ways of splitting off a text of the group's shape, a
  text has at most one split into day, month and year, and so \<open>strptime\<close> accepts a text
  if and only if it is such a split that denotes a date of the calendar.
\<close>

lemma re_one_iff: "(t, r) \<in> set (re_one P s) \<longleftrightarrow> (\<exists>a. t = [a] \<and> P a \<and> s = a # r)"
  by (cases s) auto

lemma re_two_iff:
  "(t, r) \<in> set (re_two P Q s) \<longleftrightarrow> (\<exists>a b. t = [a, b] \<and> P a \<and> Q b \<and> s = a # b # r)"
  by (cases "(P, Q, s)" rule: re_two.cases) auto

lemma day_text_cases:
  "day_text t \<longleftrightarrow> (\<exists>a. t = [a] \<and> in_class 49 57 a) \<or>
     (\<exists>a b. t = [a, b] \<and> ((a = 51 \<and> in_class 48 49 b) \<or> (in_class 49 50 a \<and> isdecimal_char b) \<or>
      (a = 48 \<and> in_class 49 57 b) \<or> (a = 32 \<and> in_class 49 57 b)))"
  by (cases t rule: day_text.cases) simp_all

lemma month_text_cases:
  "month_text t \<longleftrightarrow> (\<exists>a. t = [a] \<and> in_class 49 57 a) \<or>
     (\<exists>a b. t = [a, b] \<and> ((a = 49 \<and> in_class 48 50 b) \<or> (a = 48 \<and> in_class 49 57 b)))"
  by (cases t rule: month_text.cases) simp_all

lemma re_d_iff: "(t, r) \<in> set (re_d s) \<longleftrightarrow> s = t @ r \<and> day_text t"
  unfolding re_d_def day_text_cases set_append Un_iff re_one_iff re_two_iff by auto

lemma re_m_iff: "(t, r) \<in> set (re_m s) \<longleftrightarrow> s = t @ r \<and> month_text t"
  unfolding re_m_def month_text_cases set_append Un_iff re_one_iff re_two_iff by auto

lemma re_Y_iff: "(t, r) \<in> set (re_Y s) \<longleftrightarrow> s = t @ r \<and> year_text t"
  by (cases s rule: re_Y.cases)
     (auto simp: year_text_def length_Suc_conv numeral_eq_Suc)

lemma re_dot_iff: "r \<in> set (re_dot s) \<longleftrightarrow> s = 46 # r"
  by (cases s) auto

lemma dot_not_decimal: "\<not> isdecimal_char 46"
  by (simp add: isdecimal_char_def decimal_value_low)

lemma day_text_no_dot: "day_text t \<Longrightarrow> 46 \<notin> set t"
  by (auto simp: day_text_cases in_class_def dot_not_decimal)

lemma month_text_no_dot: "month_text t \<Longrightarrow> 46 \<notin> set t"
  by (auto simp: month_text_cases in_class_def)

lemma split_at_first:
  assumes "x \<notin> set a" "x \<notin> set b" "a @ x # r = b @ x # r'"
  shows "a = b \<and> r = r'"
  using assms
proof (induction a arbitrary: b)
  case Nil
  then show ?case by (cases b) auto
next
  case (Cons h a)
  then show ?case by (cases b) auto
qed

lemma decomposition_unique:
  assumes "d @ 46 # m @ 46 # y @ r = d' @ 46 # m' @ 46 # y' @ r'"
    and "day_text d" "month_text m" "year_text y" "day_text d'" "month_text m'" "year_text y'"
  shows "d = d' \<and> m = m' \<and> y = y' \<and> r = r'"
proof -
  from split_at_first [OF day_text_no_dot [OF assms(2)] day_text_no_dot [OF assms(5)] assms(1)]
  have 1: "d = d'" and e: "m @ 46 # y @ r = m' @ 46 # y' @ r'" by simp_all
  from split_at_first [OF month_text_no_dot [OF assms(3)] month_text_no_dot [OF assms(6)] e]
  have 2: "m = m'" and f: "y @ r = y' @ r'" by simp_all
  from assms(4,7) have "length y = length y'" by (simp add: year_text_def)
  with f have "y = y' \<and> r = r'" by simp
  with 1 2 show ?thesis by simp
qed

lemma mem_concat_pairs:
  "x \<in> set (concat (map (\<lambda>(a, b). F a b) ps)) \<longleftrightarrow> (\<exists>a b. (a, b) \<in> set ps \<and> x \<in> set (F a b))"
  by (induction ps) auto

lemma mem_concat_dot:
  "x \<in> set (concat (map F (re_dot s))) \<longleftrightarrow> (\<exists>r. s = 46 # r \<and> x \<in> set (F r))"
  by (cases s) auto

lemma mem_map_year:
  "((d, m, y), r5) \<in> set (map (\<lambda>(y', r'). ((d', m', y'), r')) ps) \<longleftrightarrow>
     d = d' \<and> m = m' \<and> (y, r5) \<in> set ps"
  by (induction ps) auto

lemma matches_iff:
  "((d, m, y), r5) \<in> set (concat (map (\<lambda>(d, r1). concat (map (\<lambda>r2. concat (map (\<lambda>(m, r3).
             concat (map (\<lambda>r4. map (\<lambda>(y, r5). ((d, m, y), r5)) (re_Y r4)) (re_dot r3)))
             (re_m r2))) (re_dot r1))) (re_d s)))
   \<longleftrightarrow> s = d @ 46 # m @ 46 # y @ r5 \<and> day_text d \<and> month_text m \<and> year_text y"
  unfolding mem_concat_pairs mem_concat_dot mem_map_year re_d_iff re_m_iff re_Y_iff
  by auto

lemma format_regex_match_Some_iff:
  "format_regex_match s = Some ((d, m, y), r) \<longleftrightarrow>
     s = d @ 46 # m @ 46 # y @ r \<and> day_text d \<and> month_text m \<and> year_text y"
  (is "?L \<longleftrightarrow> ?R")
proof -
  define M where "M = concat (map (\<lambda>(d, r1). concat (map (\<lambda>r2. concat (map (\<lambda>(m, r3).
             concat (map (\<lambda>r4. map (\<lambda>(y, r5). ((d, m, y), r5)) (re_Y r4)) (re_dot r3)))
             (re_m r2))) (re_dot r1))) (re_d s))"
  have mem: "((d, m, y), r) \<in> set M \<longleftrightarrow>
      s = d @ 46 # m @ 46 # y @ r \<and> day_text d \<and> month_text m \<and> year_text y" for d m y r
    unfolding M_def by (rule matches_iff)
  have f: "format_regex_match s = (case M of [] \<Rightarrow> None | found # others \<Rightarrow> Some found)"
    unfolding M_def format_regex_match_def by (rule refl)
  show ?thesis
  proof
    assume ?L
    then have "((d, m, y), r) \<in> set M" unfolding f by (cases M) auto
    then show ?R by (simp add: mem)
  next
    assume r: ?R
    then have in_M: "((d, m, y), r) \<in> set M" by (simp add: mem)
    then obtain x xs where M: "M = x # xs" by (cases M) auto
    obtain d' m' y' r' where x: "x = ((d', m', y'), r')" by (cases x) auto
    have "((d', m', y'), r') \<in> set M" unfolding M x by simp
    then have r': "s = d' @ 46 # m' @ 46 # y' @ r'" "day_text d'" "month_text m'" "year_text y'"
      by (simp_all add: mem)
    from r r' have "d @ 46 # m @ 46 # y @ r = d' @ 46 # m' @ 46 # y' @ r'" by simp
    from decomposition_unique [OF this] r r'(2,3,4) have "x = ((d, m, y), r)"
      unfolding x by simp
    then show ?L unfolding f M by simp
  qed
qed

lemma strptime_Some_iff:
  "strptime s = Some dt \<longleftrightarrow>
     (\<exists>d m y yy mm dd. s = d @ 46 # m @ 46 # y \<and> day_text d \<and> month_text m \<and> year_text y
        \<and> py_int y = Some yy \<and> py_int m = Some mm \<and> py_int d = Some dd
        \<and> valid_date yy mm dd \<and> dt = midnight yy mm dd)"
  (is "?L \<longleftrightarrow> ?R")
proof
  assume ?L
  then obtain d m y where fm: "format_regex_match s = Some ((d, m, y), [])"
    by (cases "format_regex_match s") (auto simp: strptime_def split: if_splits)
  with \<open>?L\<close> obtain yy mm dd where i: "py_int y = Some yy" "py_int m = Some mm" "py_int d = Some dd"
    and n: "datetime_new yy mm dd 0 0 0 0 = Inr dt"
    by (auto simp: strptime_def split: option.splits sum.splits)
  from datetime_new_InrD [OF n] have dt: "dt = midnight yy mm dd" "valid_date yy mm dd"
    by (simp_all add: midnight_def valid_datetime_def)
  from fm have "s = d @ 46 # m @ 46 # y" "day_text d" "month_text m" "year_text y"
    by (simp_all add: format_regex_match_Some_iff)
  with i dt show ?R by blast
next
  assume ?R
  then obtain d m y yy mm dd where r: "s = d @ 46 # m @ 46 # y" "day_text d" "month_text m"
    "year_text y" "py_int y = Some yy" "py_int m = Some mm" "py_int d = Some dd"
    "valid_date yy mm dd" "dt = midnight yy mm dd" by blast
  then have fm: "format_regex_match s = Some ((d, m, y), [])"
    by (simp add: format_regex_match_Some_iff)
  have "datetime_new yy mm dd 0 0 0 0 = Inr dt"
    unfolding r(9) midnight_def
    by (rule datetime_new_valid) (simp add: valid_datetime_def r(8))
  with fm r(5,6,7) show ?L by (simp add: strptime_def)
qed

lemma ascii_digit_decimal: "is_ascii_digit c \<Longrightarrow> decimal_value c = Some (c - 48)"
  by (simp add: is_ascii_digit_def decimal_value_low)

lemma foldl_ascii_number:
  assumes "list_all is_ascii_digit t"
  shows "foldl (\<lambda>acc c. 10 * acc + int (case decimal_value c of None \<Rightarrow> 0 | Some v \<Rightarrow> v)) a t
       = foldl (\<lambda>acc c. 10 * acc + (int c - 48)) a t"
  using assms
proof (induction t arbitrary: a)
  case Nil
  show ?case by simp
next
  case (Cons c t)
  then have c: "is_ascii_digit c" and t: "list_all is_ascii_digit t" by simp_all
  have "int (c - 48) = int c - 48" using c by (simp add: is_ascii_digit_def)
  with Cons.IH [OF t] ascii_digit_decimal [OF c] show ?case by simp
qed

lemma py_int_ascii:
  assumes "t \<noteq> []" "list_all is_ascii_digit t"
  shows "py_int t = Some (ascii_number t)"
proof -
  from assms obtain c cs where t: "t = c # cs" by (cases t) auto
  with assms(2) have "c \<noteq> 32" by (auto simp: is_ascii_digit_def)
  then have dw: "dropWhile (\<lambda>c. c = 32) t = t" by (simp add: t)
  have dec: "list_all isdecimal_char t"
    using assms(2) by (auto simp: list_all_iff isdecimal_char_def ascii_digit_decimal)
  show ?thesis
    unfolding py_int_def Let_def dw ascii_number_def
    using assms(1) dec foldl_ascii_number [OF assms(2)] by simp
qed

lemma ascii_number_two: "ascii_number [a, b] = 10 * (int a - 48) + (int b - 48)"
  by (simp add: ascii_number_def)

lemma ascii_number_four:
  "ascii_number [a, b, c, d] =
     1000 * (int a - 48) + 100 * (int b - 48) + 10 * (int c - 48) + (int d - 48)"
  by (simp add: ascii_number_def)

lemma ascii_digit_isdecimal: "is_ascii_digit c \<Longrightarrow> isdecimal_char c"
  by (simp add: isdecimal_char_def ascii_digit_decimal)

lemma day_text_two_digits:
  assumes "is_ascii_digit a" "is_ascii_digit b"
  shows "day_text [a, b] \<longleftrightarrow> 1 \<le> ascii_number [a, b] \<and> ascii_number [a, b] \<le> 31"
proof -
  from assms have "48 \<le> a" "a \<le> 57" "48 \<le> b" "b \<le> 57" by (simp_all add: is_ascii_digit_def)
  then show ?thesis
    unfolding ascii_number_two day_text.simps in_class_def
    using ascii_digit_isdecimal [OF assms(2)] by simp linarith
qed

lemma month_text_two_digits:
  assumes "is_ascii_digit a" "is_ascii_digit b"
  shows "month_text [a, b] \<longleftrightarrow> 1 \<le> ascii_number [a, b] \<and> ascii_number [a, b] \<le> 12"
proof -
  from assms have "48 \<le> a" "a \<le> 57" "48 \<le> b" "b \<le> 57" by (simp_all add: is_ascii_digit_def)
  then show ?thesis
    unfolding ascii_number_two month_text.simps in_class_def
    by simp linarith
qed

lemma days_in_month_le_31: "1 \<le> m \<Longrightarrow> m \<le> 12 \<Longrightarrow> days_in_month y m \<le> 31"
  using int_1_12_cases [of m] by (auto simp: days_in_month_def DAYS_IN_MONTH_def)

lemma strptime_strict:
  assumes dg: "is_ascii_digit d1" "is_ascii_digit d2" "is_ascii_digit m1" "is_ascii_digit m2"
    "is_ascii_digit y1" "is_ascii_digit y2" "is_ascii_digit y3" "is_ascii_digit y4"
  shows "strptime [d1, d2, 46, m1, m2, 46, y1, y2, y3, y4] =
     (if valid_date (ascii_number [y1, y2, y3, y4]) (ascii_number [m1, m2]) (ascii_number [d1, d2])
      then Some (midnight (ascii_number [y1, y2, y3, y4]) (ascii_number [m1, m2])
                   (ascii_number [d1, d2]))
      else None)"
proof -
  let ?s = "[d1, d2, 46, m1, m2, 46, y1, y2, y3, y4]"
  let ?Y = "ascii_number [y1, y2, y3, y4]" and ?M = "ascii_number [m1, m2]"
  let ?D = "ascii_number [d1, d2]"
  have pi: "py_int [y1, y2, y3, y4] = Some ?Y" "py_int [m1, m2] = Some ?M"
    "py_int [d1, d2] = Some ?D"
    using dg by (simp_all add: py_int_ascii)
  have yt: "year_text [y1, y2, y3, y4]"
    using dg by (simp add: year_text_def ascii_digit_isdecimal)
  have nd: "46 \<notin> set [d1, d2]" "46 \<notin> set [m1, m2]"
    using dg by (auto simp: is_ascii_digit_def)
  show ?thesis
  proof (cases "valid_date ?Y ?M ?D")
    case True
    then have m: "1 \<le> ?M" "?M \<le> 12" and d: "1 \<le> ?D" "?D \<le> days_in_month ?Y ?M"
      by (simp_all add: valid_date_def)
    from days_in_month_le_31 [OF m, of ?Y] d(2) have "?D \<le> 31" by linarith
    with d(1) have dt: "day_text [d1, d2]" using day_text_two_digits [OF dg(1,2)] by blast
    from m have mt: "month_text [m1, m2]" using month_text_two_digits [OF dg(3,4)] by blast
    have "strptime ?s = Some (midnight ?Y ?M ?D)"
      unfolding strptime_Some_iff
      using dt mt yt pi True
      by (intro exI [of _ "[d1, d2]"] exI [of _ "[m1, m2]"] exI [of _ "[y1, y2, y3, y4]"]
          exI [of _ ?Y] exI [of _ ?M] exI [of _ ?D]) simp
    with True show ?thesis by simp
  next
    case False
    have "strptime ?s = None"
    proof (rule ccontr)
      assume "strptime ?s \<noteq> None"
      then obtain dt where "strptime ?s = Some dt" by auto
      then obtain d m y yy mm dd where r: "?s = d @ 46 # m @ 46 # y" "day_text d" "month_text m"
        "year_text y" "py_int y = Some yy" "py_int m = Some mm" "py_int d = Some dd"
        "valid_date yy mm dd" unfolding strptime_Some_iff by blast
      have e1: "d @ 46 # (m @ 46 # y) = [d1, d2] @ 46 # [m1, m2, 46, y1, y2, y3, y4]"
        using r(1) by simp
      from split_at_first [OF day_text_no_dot [OF r(2)] nd(1) e1]
      have d: "d = [d1, d2]" and e2: "m @ 46 # y = [m1, m2] @ 46 # [y1, y2, y3, y4]" by simp_all
      from split_at_first [OF month_text_no_dot [OF r(3)] nd(2) e2]
      have m: "m = [m1, m2]" and y: "y = [y1, y2, y3, y4]" by simp_all
      from r(5,6,7,8) pi d m y False show False by simp
    qed
    with False show ?thesis by simp
  qed
qed

lemma Birthday_init_Some:
  "s \<noteq> [] \<Longrightarrow> Birthday_init (Some s) =
     (if strptime s = None
      then Inl (ValueError (ascii ''Birthday must be in format DD.MM.YYYY''))
      else Inr (Birthday (Some s)))"
  by (simp add: Birthday_init_def split: option.splits)

lemma strptime_accepts_iff:
  "strptime s \<noteq> None \<longleftrightarrow>
     (\<exists>d m y. s = d @ [46] @ m @ [46] @ y \<and> day_text d \<and> month_text m \<and> year_text y
        \<and> date_texts_valid y m d)"
  (is "?L \<longleftrightarrow> ?R")
proof
  assume ?L
  then obtain dt where "strptime s = Some dt" by auto
  then obtain d m y yy mm dd where "s = d @ 46 # m @ 46 # y" "day_text d" "month_text m"
    "year_text y" "py_int y = Some yy" "py_int m = Some mm" "py_int d = Some dd"
    "valid_date yy mm dd" unfolding strptime_Some_iff by blast
  then have "s = d @ [46] @ m @ [46] @ y \<and> day_text d \<and> month_text m \<and> year_text y
        \<and> date_texts_valid y m d" by (simp add: date_texts_valid_def)
  then show ?R by blast
next
  assume ?R
  then obtain d m y where r: "s = d @ [46] @ m @ [46] @ y" "day_text d" "month_text m"
    "year_text y" "date_texts_valid y m d" by blast
  from r(5) obtain yy mm dd where "py_int y = Some yy" "py_int m = Some mm" "py_int d = Some dd"
    "valid_date yy mm dd"
    by (auto simp: date_texts_valid_def split: option.splits)
  moreover from r(1) have "s = d @ 46 # m @ 46 # y" by simp
  ultimately have "strptime s = Some (midnight yy mm dd)"
    unfolding strptime_Some_iff using r(2,3,4) by blast
  then show ?L by simp
qed

section \<open>Creating a birthday\<close>

lemma strptime_strict_accepts:
  assumes dg: "is_ascii_digit d1" "is_ascii_digit d2" "is_ascii_digit m1" "is_ascii_digit m2"
    "is_ascii_digit y1" "is_ascii_digit y2" "is_ascii_digit y3" "is_ascii_digit y4"
  shows "strptime [d1, d2, 46, m1, m2, 46, y1, y2, y3, y4] \<noteq> None \<longleftrightarrow>
     valid_date (ascii_number [y1, y2, y3, y4]) (ascii_number [m1, m2]) (ascii_number [d1, d2])"
  by (simp only: strptime_strict [OF dg] if_split option.simps simp_thms split: if_splits)

lemma Birthday_init_strict:
  assumes "strict_shape raw"
  shows "Birthday_init (Some raw) = Inr (Birthday (Some raw)) \<longleftrightarrow>
           valid_date (ascii_number (drop 6 raw)) (ascii_number (take 2 (drop 3 raw)))
             (ascii_number (take 2 raw))"
proof (cases raw rule: strict_shape.cases)
  case (1 d1 d2 p1 m1 m2 p2 y1 y2 y3 y4)
  with assms have dg: "is_ascii_digit d1" "is_ascii_digit d2" "is_ascii_digit m1"
    "is_ascii_digit m2" "is_ascii_digit y1" "is_ascii_digit y2" "is_ascii_digit y3"
    "is_ascii_digit y4" and p: "p1 = 46" "p2 = 46" by simp_all
  have ne: "raw \<noteq> []" using 1 by simp
  have t: "drop 6 raw = [y1, y2, y3, y4]" "take 2 (drop 3 raw) = [m1, m2]"
    "take 2 raw = [d1, d2]" using 1 by simp_all
  have a: "strptime raw \<noteq> None \<longleftrightarrow> valid_date (ascii_number [y1, y2, y3, y4])
      (ascii_number [m1, m2]) (ascii_number [d1, d2])"
    using strptime_strict_accepts [OF dg] 1 p by simp
  show ?thesis
  proof (cases "strptime raw = None")
    case True
    with a show ?thesis by (simp add: Birthday_init_Some [OF ne] t)
  next
    case False
    with a show ?thesis by (simp add: Birthday_init_Some [OF ne] t)
  qed
qed (use assms in simp_all)

lemma not_strict_one_digit: "\<not> strict_shape (ascii ''1.2.2000'')"
  by (simp add: ascii_def)

lemma Birthday_init_cases:
  "Birthday_init (Some raw) = Inr (Birthday (Some raw)) \<or>
   Birthday_init (Some raw) = Inl (ValueError (ascii ''Birthday must be in format DD.MM.YYYY''))"
proof (cases "raw = []")
  case True
  then show ?thesis by (simp add: Birthday_init_def)
next
  case False
  then show ?thesis by (simp add: Birthday_init_Some)
qed

lemma Birthday_init_accepts_iff:
  assumes "raw \<noteq> []"
  shows "Birthday_init (Some raw) = Inr (Birthday (Some raw)) \<longleftrightarrow>
           (\<exists>d m y. raw = d @ [46] @ m @ [46] @ y \<and> day_text d \<and> month_text m \<and> year_text y
              \<and> date_texts_valid y m d)"
proof (cases "strptime raw = None")
  case True
  with strptime_accepts_iff [of raw] show ?thesis
    by (simp add: Birthday_init_Some [OF assms])
next
  case False
  with strptime_accepts_iff [of raw] show ?thesis
    by (simp add: Birthday_init_Some [OF assms])
qed

text \<open>
  C5, as stated, fails on texts outside the two-digit, two-digit, four-digit shape:
  \<open>strptime\<close> takes a day and a month of one digit, so \<open>Birthday("1.2.2000")\<close> succeeds.
\<close>

theorem Birthday_init_one_digit:
  "Birthday_init (Some (ascii ''1.2.2000'')) = Inr (Birthday (Some (ascii ''1.2.2000'')))
   \<and> \<not> strict_shape (ascii ''1.2.2000'')"
proof -
  have "strptime (ascii ''1.2.2000'') = Some (midnight 2000 2 1)"
    by (simp add: strptime_eval calendar_eval)
  then have "Birthday_init (Some (ascii ''1.2.2000'')) = Inr (Birthday (Some (ascii ''1.2.2000'')))"
    by (simp add: Birthday_init_def)
  with not_strict_one_digit show ?thesis by simp
qed

text \<open>
  C5, amended: \<open>Birthday(raw)\<close> accepts an absent or empty \<open>raw\<close> as no birthday. A
  non-empty \<open>raw\<close> is accepted, and stored verbatim, if and only if it is a day text, a dot,
  a month text, a dot and a year text that denote a date of the calendar, where day and
  month may have one digit or two (the day may be padded with a space instead of a zero)
  and the year has four decimal digits; every other text fails with the \<open>ValueError\<close> of
  the birthday format. A text of the strict shape \<open>DD.MM.YYYY\<close> is accepted if and only
  if its three numbers are a date of the calendar, so \<open>31.02.2000\<close> fails.
\<close>

theorem Birthday_init_spec:
  "Birthday_init None = Inr (Birthday None)
   \<and> Birthday_init (Some []) = Inr (Birthday (Some []))
   \<and> Birthday_repr (Birthday None) = ascii ''No birthday''
   \<and> Birthday_repr (Birthday (Some [])) = ascii ''No birthday''
   \<and> (raw \<noteq> [] \<longrightarrow>
        (Birthday_init (Some raw) = Inr (Birthday (Some raw)) \<longleftrightarrow>
           (\<exists>d m y. raw = d @ [46] @ m @ [46] @ y \<and> day_text d \<and> month_text m \<and> year_text y
              \<and> date_texts_valid y m d)))
   \<and> (\<forall>b. Birthday_init (Some raw) = Inr b \<longrightarrow> b = Birthday (Some raw))
   \<and> ((\<nexists>b. Birthday_init (Some raw) = Inr b) \<longrightarrow>
        Birthday_init (Some raw) = Inl (ValueError (ascii ''Birthday must be in format DD.MM.YYYY'')))
   \<and> (strict_shape raw \<longrightarrow>
        (Birthday_init (Some raw) = Inr (Birthday (Some raw)) \<longleftrightarrow>
           valid_date (ascii_number (drop 6 raw)) (ascii_number (take 2 (drop 3 raw)))
             (ascii_number (take 2 raw))))"
proof (intro conjI impI allI)
  show "Birthday_init None = Inr (Birthday None)"
    by (simp add: Birthday_init_def)
  show "Birthday_init (Some []) = Inr (Birthday (Some []))"
    by (simp add: Birthday_init_def)
  show "Birthday_repr (Birthday None) = ascii ''No birthday''"
    by (simp add: Birthday_repr_def value_truthy_def)
  show "Birthday_repr (Birthday (Some [])) = ascii ''No birthday''"
    by (simp add: Birthday_repr_def value_truthy_def)
next
  assume "raw \<noteq> []"
  then show "Birthday_init (Some raw) = Inr (Birthday (Some raw)) \<longleftrightarrow>
           (\<exists>d m y. raw = d @ [46] @ m @ [46] @ y \<and> day_text d \<and> month_text m \<and> year_text y
              \<and> date_texts_valid y m d)"
    by (rule Birthday_init_accepts_iff)
next
  fix b assume "Birthday_init (Some raw) = Inr b"
  with Birthday_init_cases [of raw] show "b = Birthday (Some raw)" by auto
next
  assume "\<nexists>b. Birthday_init (Some raw) = Inr b"
  with Birthday_init_cases [of raw] show "Birthday_init (Some raw) =
      Inl (ValueError (ascii ''Birthday must be in format DD.MM.YYYY''))" by blast
next
  assume "strict_shape raw"
  then show "Birthday_init (Some raw) = Inr (Birthday (Some raw)) \<longleftrightarrow>
           valid_date (ascii_number (drop 6 raw)) (ascii_number (take 2 (drop 3 raw)))
             (ascii_number (take 2 raw))"
    by (rule Birthday_init_strict)
qed

theorem Birthday_init_spec_witness:
  "Birthday_init (Some (ascii ''15.06.1990'')) = Inr (Birthday (Some (ascii ''15.06.1990'')))
   \<and> Birthday_init (Some (ascii ''31.02.2000'')) =
       Inl (ValueError (ascii ''Birthday must be in format DD.MM.YYYY''))"
proof -
  have s1: "strict_shape (ascii ''15.06.1990'')"
    and s2: "strict_shape (ascii ''31.02.2000'')"
    by (simp_all add: ascii_def is_ascii_digit_def)
  have v1: "valid_date (ascii_number (drop 6 (ascii ''15.06.1990'')))
      (ascii_number (take 2 (drop 3 (ascii ''15.06.1990''))))
      (ascii_number (take 2 (ascii ''15.06.1990'')))"
    by (simp add: ascii_def ascii_number_def calendar_eval)
  have v2: "\<not> valid_date (ascii_number (drop 6 (ascii ''31.02.2000'')))
      (ascii_number (take 2 (drop 3 (ascii ''31.02.2000''))))
      (ascii_number (take 2 (ascii ''31.02.2000'')))"
    by (simp add: ascii_def ascii_number_def calendar_eval)
  from Birthday_init_spec [of "ascii ''15.06.1990''"] s1 v1
  have a: "Birthday_init (Some (ascii ''15.06.1990'')) = Inr (Birthday (Some (ascii ''15.06.1990'')))"
    by blast
  from Birthday_init_spec [of "ascii ''31.02.2000''"] s2 v2
  have "Birthday_init (Some (ascii ''31.02.2000'')) =
       Inl (ValueError (ascii ''Birthday must be in format DD.MM.YYYY''))"
    by blast
  with a show ?thesis by simp
qed

end
